theory Spec2Isabelle
  imports Main
begin

section \<open>Data model (types/index.ts)\<close>

text \<open>
  Tags, graph nodes and graph edges are the interfaces of \<^verbatim>\<open>types/index.ts\<close>. Field
  names carry a prefix because the three interfaces share names. Optional fields are
  options. The \<^verbatim>\<open>name\<close> of a tag's parent is typed \<^verbatim>\<open>any\<close> in the source and receives
  \<^verbatim>\<open>currentClass\<close>, which may be \<^verbatim>\<open>null\<close>.
\<close>

datatype tag_kind = Def | Ref

record ParentInfo =
  p_name :: "string option"
  p_type :: string
  p_filePath :: string
  p_startLine :: nat

record Tag =
  t_name :: string
  t_type :: string
  t_kind :: tag_kind
  t_filePath :: string
  t_targetFile :: "string option"
  t_startLine :: nat
  t_endLine :: nat
  t_text :: "string option"
  t_parent :: "ParentInfo option"

record GraphNodeData =
  n_nodeId :: string
  n_repoId :: string
  n_name :: string
  n_type :: string
  n_filePath :: string
  n_startLine :: nat
  n_endLine :: nat
  n_text :: "string option"
  n_isDirectory :: "bool option"
  n_createdAt :: "string option"
  n_modifiedAt :: "string option"
  n_isReference :: "bool option"

record GraphEdgeData =
  e_sourceId :: string
  e_targetId :: string
  e_type :: string
  e_repoId :: "string option"

section \<open>Syntax trees (the part of the Babel AST that code-parser.ts inspects)\<close>

text \<open>
  \<^verbatim>\<open>@babel/parser\<close> is a library; what it returns is modelled by the node kinds that the
  visitor of \<^verbatim>\<open>parseFile\<close> tests for, and \<open>Other\<close> for every other kind. Each node
  lists its children in the order \<^verbatim>\<open>@babel/traverse\<close> visits them. A location is
  \<open>Some (start line, end line)\<close> or \<open>None\<close> for a node without \<^verbatim>\<open>loc\<close>.
\<close>

type_synonym loc = "(nat \<times> nat) option"

datatype import_spec =
    ImportSpecifier string string
  | ImportDefaultSpecifier string
  | ImportNamespaceSpecifier string

datatype node =
    Identifier loc string
  | StringLiteral loc string
  | MemberExpression loc node node
  | CallExpression loc node "node list"
  | NewExpression loc node "node list"
  | ThrowStatement loc node
  | ImportDeclaration loc "import_spec list" string
  | ClassDeclaration loc "string option" "node list"
  | FunctionDeclaration loc "string option" "node list"
  | ClassMethod loc bool "node list" node "node list"
  | ClassPrivateMethod loc string "node list"
  | Other loc "node list"

text \<open>
  \<open>ImportSpecifier local imported\<close>: the imported name is the \<^verbatim>\<open>name\<close> of an identifier or
  the \<^verbatim>\<open>value\<close> of a string literal. \<open>ClassDeclaration l id children\<close> and
  \<open>FunctionDeclaration l id children\<close> carry \<^verbatim>\<open>node.id?.name\<close>.
  \<open>ClassMethod l static decorators key rest\<close> has the key as a node, visited between the
  decorators and the remaining children. \<open>ClassPrivateMethod l n children\<close> carries
  \<^verbatim>\<open>node.key.id.name\<close>.
\<close>

fun node_loc :: "node \<Rightarrow> loc" where
  "node_loc (Identifier l _) = l"
| "node_loc (StringLiteral l _) = l"
| "node_loc (MemberExpression l _ _) = l"
| "node_loc (CallExpression l _ _) = l"
| "node_loc (NewExpression l _ _) = l"
| "node_loc (ThrowStatement l _) = l"
| "node_loc (ImportDeclaration l _ _) = l"
| "node_loc (ClassDeclaration l _ _) = l"
| "node_loc (FunctionDeclaration l _ _) = l"
| "node_loc (ClassMethod l _ _ _ _) = l"
| "node_loc (ClassPrivateMethod l _ _) = l"
| "node_loc (Other l _) = l"

text \<open>\<^verbatim>\<open>node.loc?.start.line || 0\<close> and \<^verbatim>\<open>node.loc?.end.line || 0\<close>.\<close>

definition startLineOf :: "node \<Rightarrow> nat" where
  "startLineOf n = (case node_loc n of None \<Rightarrow> 0 | Some (s, e) \<Rightarrow> s)"

definition endLineOf :: "node \<Rightarrow> nat" where
  "endLineOf n = (case node_loc n of None \<Rightarrow> 0 | Some (s, e) \<Rightarrow> e)"

section \<open>The tag extractor (code-parser.ts)\<close>

subsection \<open>Module-level tables\<close>

text \<open>
  \<^verbatim>\<open>DEFINED_SYMBOLS\<close>, \<^verbatim>\<open>EXPORT_MAP\<close>, \<^verbatim>\<open>FILE_REFERENCES\<close> and \<^verbatim>\<open>IMPORT_RESOLVER\<close> are
  constants of the module: they live for the whole process and are shared by every call
  of \<^verbatim>\<open>parseFile\<close>. (\<^verbatim>\<open>IMPORTED_IDENTIFIERS\<close> is declared and never used.)
\<close>

record module_state =
  DEFINED_SYMBOLS :: "string \<rightharpoonup> (string \<times> nat)"
  EXPORT_MAP :: "string \<rightharpoonup> string set"
  FILE_REFERENCES :: "string \<rightharpoonup> string"
  IMPORT_RESOLVER :: "string \<rightharpoonup> string"

definition initial_module_state :: module_state where
  "initial_module_state =
     \<lparr>DEFINED_SYMBOLS = Map.empty, EXPORT_MAP = Map.empty,
      FILE_REFERENCES = Map.empty, IMPORT_RESOLVER = Map.empty\<rparr>"

text \<open>The state of one traversal: the module tables, and the locals \<^verbatim>\<open>currentClass\<close>
  and \<^verbatim>\<open>tags\<close> of the enclosing \<^verbatim>\<open>parseFile\<close> call.\<close>

record visitor_state =
  tables :: module_state
  currentClass :: "string option"
  tags :: "Tag list"

subsection \<open>shouldIgnoreFunctionCall\<close>

text \<open>
  \<^verbatim>\<open>allGlobals\<close> is the union of the key sets of \<^verbatim>\<open>globals.browser\<close>, \<^verbatim>\<open>globals.node\<close> and
  \<^verbatim>\<open>globals.es2021\<close> of the npm package \<^verbatim>\<open>globals\<close>; the three key sets are parameters.
  The result of \<^verbatim>\<open>getBuiltinPrototypeMethods\<close> is not part of it: that function is
  never called.
\<close>

definition allGlobals :: "string set \<Rightarrow> string set \<Rightarrow> string set \<Rightarrow> string set" where
  "allGlobals browserGlobals nodeGlobals esGlobals =
     browserGlobals \<union> nodeGlobals \<union> esGlobals"

fun shouldIgnoreFunctionCall :: "string set \<Rightarrow> node \<Rightarrow> bool" where
  "shouldIgnoreFunctionCall G (ThrowStatement l (NewExpression l' (Identifier l'' c) args)) =
     (c = ''Error'')"
| "shouldIgnoreFunctionCall G (NewExpression l (Identifier l' c) args) = (c = ''Error'')"
| "shouldIgnoreFunctionCall G
      (CallExpression l (MemberExpression l' (Identifier lo obj) (Identifier lp prop)) args) =
     (obj \<in> G \<or> prop \<in> G)"
| "shouldIgnoreFunctionCall G (CallExpression l (Identifier l' c) args) = (c \<in> G)"
| "shouldIgnoreFunctionCall G n = False"

subsection \<open>Name helpers of parseFile\<close>

text \<open>JavaScript truthiness of a \<^verbatim>\<open>string | null\<close> value.\<close>

definition truthy :: "string option \<Rightarrow> bool" where
  "truthy v = (case v of None \<Rightarrow> False | Some s \<Rightarrow> s \<noteq> [])"

text \<open>A \<^verbatim>\<open>string | null\<close> value inside a template literal.\<close>

definition template :: "string option \<Rightarrow> string" where
  "template v = (case v of None \<Rightarrow> ''null'' | Some s \<Rightarrow> s)"

definition getCurrentFunctionName :: "string option \<Rightarrow> string" where
  "getCurrentFunctionName cc = (if truthy cc then the cc else ''global'')"

fun getFunctionName :: "string set \<Rightarrow> node \<Rightarrow> string" where
  "getFunctionName G (Identifier l n) = n"
| "getFunctionName G (MemberExpression l obj (Identifier l' p)) = p"
| "getFunctionName G (MemberExpression l obj prop) = ''''"
| "getFunctionName G (CallExpression l callee args) =
     (if shouldIgnoreFunctionCall G (CallExpression l callee args) then ''''
      else (case callee of
              Identifier l' c \<Rightarrow> c
            | MemberExpression l' obj (Identifier l'' p) \<Rightarrow> p
            | _ \<Rightarrow> ''''))"
| "getFunctionName G n = ''''"

fun getObjectName :: "node \<Rightarrow> string" where
  "getObjectName (Identifier l n) = n"
| "getObjectName (MemberExpression l (Identifier l' obj) prop) = obj"
| "getObjectName n = ''''"

subsection \<open>The visitor\<close>

definition mkTag ::
  "string \<Rightarrow> string \<Rightarrow> tag_kind \<Rightarrow> string \<Rightarrow> string option \<Rightarrow> node \<Rightarrow> ParentInfo option \<Rightarrow> Tag" where
  "mkTag nm ty k relPath target n par =
     \<lparr>t_name = nm, t_type = ty, t_kind = k, t_filePath = relPath, t_targetFile = target,
      t_startLine = startLineOf n, t_endLine = endLineOf n, t_text = None, t_parent = par\<rparr>"

definition pushTag :: "Tag \<Rightarrow> visitor_state \<Rightarrow> visitor_state" where
  "pushTag t st = st\<lparr>tags := tags st @ [t]\<rparr>"

text \<open>The parent of a method tag: the enclosing class and the method's own start line.\<close>

definition classParent :: "string option \<Rightarrow> string \<Rightarrow> node \<Rightarrow> ParentInfo" where
  "classParent cc relPath n =
     \<lparr>p_name = cc, p_type = ''class'', p_filePath = relPath, p_startLine = startLineOf n\<rparr>"

text \<open>The parent of a call tag.\<close>

definition callParent :: "string option \<Rightarrow> string \<Rightarrow> node \<Rightarrow> ParentInfo" where
  "callParent cc relPath n =
     \<lparr>p_name = Some (if truthy cc then template cc @ ''.'' @ getCurrentFunctionName cc
                     else getCurrentFunctionName cc),
      p_type = (if truthy cc then ''method'' else ''function''),
      p_filePath = relPath, p_startLine = startLineOf n\<rparr>"

text \<open>One specifier of an import declaration (the body of the \<^verbatim>\<open>forEach\<close>).\<close>

fun localNameOf :: "import_spec \<Rightarrow> string" where
  "localNameOf (ImportSpecifier local imported) = local"
| "localNameOf (ImportDefaultSpecifier local) = local"
| "localNameOf (ImportNamespaceSpecifier local) = local"

fun exportedNameOf :: "import_spec \<Rightarrow> string" where
  "exportedNameOf (ImportSpecifier local imported) = imported"
| "exportedNameOf spec = ''default''"

definition importSpecifier :: "string \<Rightarrow> import_spec \<Rightarrow> module_state \<Rightarrow> module_state" where
  "importSpecifier sourceFile spec ms =
     (case EXPORT_MAP ms sourceFile of
        None \<Rightarrow> ms
      | Some exported \<Rightarrow>
          if exportedNameOf spec \<in> exported
          then ms\<lparr>IMPORT_RESOLVER :=
                    (IMPORT_RESOLVER ms)(localNameOf spec \<mapsto> sourceFile @ ''#'' @ exportedNameOf spec)\<rparr>
          else ms)"

text \<open>\<^verbatim>\<open>IMPORT_RESOLVER.get(name) || name\<close>: a missing or empty entry gives the name.\<close>

definition resolveName :: "module_state \<Rightarrow> string \<Rightarrow> string" where
  "resolveName ms nm =
     (case IMPORT_RESOLVER ms nm of None \<Rightarrow> nm | Some r \<Rightarrow> if r = [] then nm else r)"

text \<open>The block "Handle import resolution" of a call that is not ignored.\<close>

definition identifierTarget :: "module_state \<Rightarrow> string \<Rightarrow> string option" where
  "identifierTarget ms resolvedName =
     (if CHR ''#'' \<in> set resolvedName
      then Some (takeWhile (\<lambda>c. c \<noteq> CHR ''#'') resolvedName)
      else map_option fst (DEFINED_SYMBOLS ms resolvedName))"

fun importResolution :: "string \<Rightarrow> node \<Rightarrow> visitor_state \<Rightarrow> visitor_state" where
  "importResolution relPath (CallExpression l (Identifier l' c) args) st =
     (let ms = tables st; resolvedName = resolveName ms c in
      if DEFINED_SYMBOLS ms resolvedName \<noteq> None \<or> CHR ''#'' \<in> set resolvedName
      then (let targetFile = identifierTarget ms resolvedName;
                key = relPath @ '':'' @ template targetFile in
            if truthy targetFile \<and> FILE_REFERENCES ms key = None
            then pushTag (mkTag c ''functionCall'' Ref relPath targetFile
                            (CallExpression l (Identifier l' c) args) None)
                   (st\<lparr>tables := ms\<lparr>FILE_REFERENCES := (FILE_REFERENCES ms)(key \<mapsto> the targetFile)\<rparr>\<rparr>)
            else st)
      else st)"
| "importResolution relPath (CallExpression l (MemberExpression l' obj prop) args) st =
     (let ms = tables st; objectName = getObjectName obj in
      case DEFINED_SYMBOLS ms objectName of
        None \<Rightarrow> st
      | Some (file, line) \<Rightarrow>
          (let targetFile = Some file;
               methodName = (case prop of Identifier l'' p \<Rightarrow> p | _ \<Rightarrow> ''[computed]'');
               key = relPath @ '':'' @ file @ '':'' @ objectName @ ''.'' @ methodName in
           if truthy targetFile \<and> FILE_REFERENCES ms key = None
           then pushTag (mkTag (objectName @ ''.'' @ methodName) ''methodCall'' Ref relPath targetFile
                           (CallExpression l (MemberExpression l' obj prop) args) None)
                  (st\<lparr>tables := ms\<lparr>FILE_REFERENCES := (FILE_REFERENCES ms)(key \<mapsto> file)\<rparr>\<rparr>)
           else st))"
| "importResolution relPath n st = st"

text \<open>
  \<^verbatim>\<open>enter\<close>. The tests of the source are on the node's kind and exclude one another, so
  the sequence of \<^verbatim>\<open>if\<close> statements is a case distinction. The \<^verbatim>\<open>return\<close> of an ignored
  call leaves \<^verbatim>\<open>enter\<close> only: the traversal still descends into the node.
\<close>

fun enter :: "string set \<Rightarrow> string \<Rightarrow> node \<Rightarrow> visitor_state \<Rightarrow> visitor_state" where
  "enter G relPath (ImportDeclaration l specs sourceFile) st =
     st\<lparr>tables := fold (importSpecifier sourceFile) specs (tables st)\<rparr>"
| "enter G relPath (ClassDeclaration l (Some c) cs) st =
     pushTag (mkTag c ''class'' Def relPath None (ClassDeclaration l (Some c) cs) None)
       (st\<lparr>currentClass := Some c\<rparr>)"
| "enter G relPath (FunctionDeclaration l (Some f) cs) st =
     (if f \<noteq> []
      then pushTag (mkTag f ''function'' Def relPath None (FunctionDeclaration l (Some f) cs) None) st
      else st)"
| "enter G relPath (ClassMethod l isStatic ds key cs) st =
     (let methodName = (case key of Identifier l' k \<Rightarrow> k | StringLiteral l' v \<Rightarrow> v | _ \<Rightarrow> ''[computed]'');
          cc = currentClass st in
      pushTag (mkTag (if isStatic then template cc @ ''.'' @ methodName else methodName)
                 (if isStatic then ''staticMethod'' else ''method'') Def relPath None
                 (ClassMethod l isStatic ds key cs)
                 (Some (classParent cc relPath (ClassMethod l isStatic ds key cs)))) st)"
| "enter G relPath (ClassPrivateMethod l k cs) st =
     pushTag (mkTag (''#'' @ k) ''privateMethod'' Def relPath None (ClassPrivateMethod l k cs)
                (Some (classParent (currentClass st) relPath (ClassPrivateMethod l k cs)))) st"
| "enter G relPath (CallExpression l callee args) st =
     (let n = CallExpression l callee args; functionName = getFunctionName G n in
      if shouldIgnoreFunctionCall G n then st
      else importResolution relPath n
             (pushTag (mkTag functionName ''functionCall'' Ref relPath None n
                         (Some (callParent (currentClass st) relPath n))) st))"
| "enter G relPath (NewExpression l (Identifier l' c) args) st =
     (let n = NewExpression l (Identifier l' c) args in
      if shouldIgnoreFunctionCall G n then st
      else pushTag (mkTag c ''constructorCall'' Ref relPath None n None) st)"
| "enter G relPath n st = st"

text \<open>\<^verbatim>\<open>exit\<close>: leaving any class declaration, named or not, sets \<^verbatim>\<open>currentClass\<close> to null.\<close>

fun exit_node :: "node \<Rightarrow> visitor_state \<Rightarrow> visitor_state" where
  "exit_node (ClassDeclaration l c cs) st = st\<lparr>currentClass := None\<rparr>"
| "exit_node n st = st"

text \<open>The children of a node, in visiting order. The identifier of a declaration, the
  specifiers of an import and the name of a private method are nodes of kinds on which
  \<^verbatim>\<open>enter\<close> and \<^verbatim>\<open>exit\<close> do nothing; they are left out.\<close>

fun children :: "node \<Rightarrow> node list" where
  "children (Identifier l n) = []"
| "children (StringLiteral l v) = []"
| "children (MemberExpression l obj prop) = [obj, prop]"
| "children (CallExpression l callee args) = callee # args"
| "children (NewExpression l callee args) = callee # args"
| "children (ThrowStatement l arg) = [arg]"
| "children (ImportDeclaration l specs src) = []"
| "children (ClassDeclaration l c cs) = cs"
| "children (FunctionDeclaration l f cs) = cs"
| "children (ClassMethod l isStatic ds key cs) = ds @ key # cs"
| "children (ClassPrivateMethod l k cs) = cs"
| "children (Other l cs) = cs"

lemma children_size: "c \<in> set (children n) \<Longrightarrow> size c < size n"
  by (cases n) (auto simp: less_Suc_eq_le dest!: size_list_estimation'[where f = size and y = "size c"])

text \<open>Depth-first traversal: \<^verbatim>\<open>enter\<close>, the children in order, \<^verbatim>\<open>exit\<close>.\<close>

function traverse :: "string set \<Rightarrow> string \<Rightarrow> node \<Rightarrow> visitor_state \<Rightarrow> visitor_state" where
  "traverse G relPath n st =
     exit_node n (fold (traverse G relPath) (children n) (enter G relPath n st))"
  by pat_completeness auto
termination
  by (relation "measure (\<lambda>(G, relPath, n, st). size n)") (auto dest: children_size)

subsection \<open>parseFile\<close>

text \<open>
  What reading and parsing a file gives: \<^verbatim>\<open>fs.readFileSync\<close> throws (\<open>Unreadable\<close>),
  \<^verbatim>\<open>@babel/parser\<close> throws on the text (\<open>SyntaxError\<close>), or the text parses to a program
  with the given top-level nodes.
\<close>

datatype content = Unreadable | SyntaxError | Program "node list"

text \<open>
  The promise an \<^verbatim>\<open>async\<close> call returns: resolved with a value, rejected, or never
  settled (\<open>Pending\<close>): an \<^verbatim>\<open>await\<close> on it never resumes.
\<close>

datatype 'a outcome = Resolved 'a | Rejected | Pending

text \<open>
  \<^verbatim>\<open>path.extname\<close> of a file name (a path's last segment): from the last dot on, and
  empty when there is no dot, when the only dot is the first character, or for \<^verbatim>\<open>..\<close>.
  \<^verbatim>\<open>toLowerCase\<close> is modelled on ASCII letters.
\<close>

definition extname :: "string \<Rightarrow> string" where
  "extname b =
     (if CHR ''.'' \<notin> set b \<or> b = ''..'' then []
      else (let ext = CHR ''.'' # rev (takeWhile (\<lambda>c. c \<noteq> CHR ''.'') (rev b)) in
            if length ext = length b then [] else ext))"

definition lowerChar :: "char \<Rightarrow> char" where
  "lowerChar c =
     (case map_of (zip ''ABCDEFGHIJKLMNOPQRSTUVWXYZ'' ''abcdefghijklmnopqrstuvwxyz'') c of
        None \<Rightarrow> c | Some d \<Rightarrow> d)"

definition toLowerCase :: "string \<Rightarrow> string" where
  "toLowerCase s = map lowerChar s"

definition isSourceFile :: "string \<Rightarrow> bool" where
  "isSourceFile fileName =
     (toLowerCase (extname fileName) \<in> set [''.js'', ''.ts'', ''.tsx'', ''.jsx''])"

text \<open>
  \<open>parseFile G ms c fileName relPath\<close>: \<open>c\<close> is what the file at \<^verbatim>\<open>filePath\<close> holds,
  \<open>fileName\<close> its last segment and \<open>relPath\<close> is \<^verbatim>\<open>path.relative(repoRoot, filePath)\<close>.
  The executor reads the file, tests the extension, parses and traverses. For another
  extension it returns without calling \<^verbatim>\<open>resolve\<close> or \<^verbatim>\<open>reject\<close>. The result is the
  promise's outcome and the module tables afterwards.
\<close>

definition parseFile ::
  "string set \<Rightarrow> module_state \<Rightarrow> content \<Rightarrow> string \<Rightarrow> string \<Rightarrow> Tag list outcome \<times> module_state" where
  "parseFile G ms c fileName relPath =
     (case c of
        Unreadable \<Rightarrow> (Rejected, ms)
      | SyntaxError \<Rightarrow> (if isSourceFile fileName then (Rejected, ms) else (Pending, ms))
      | Program body \<Rightarrow>
          if isSourceFile fileName
          then (let st = fold (traverse G relPath) body
                           \<lparr>tables = ms, currentClass = None, tags = []\<rparr>
                in (Resolved (tags st), tables st))
          else (Pending, ms))"

section \<open>The graph builder (graph-builder.ts, the variant that stores in Neo4j)\<close>

subsection \<open>Node ids, paths, maps\<close>

text \<open>
  \<^verbatim>\<open>generateNodeId\<close> (utils.ts) is the MD5 digest, in hexadecimal, of
  \<^verbatim>\<open>`${repoId}:${nodePath}`\<close>. The digest function of the \<^verbatim>\<open>crypto\<close> library is the
  parameter \<open>H\<close>.
\<close>

definition generateNodeId :: "(string \<Rightarrow> string) \<Rightarrow> string \<Rightarrow> string \<Rightarrow> string" where
  "generateNodeId H repoId nodePath = H (repoId @ '':'' @ nodePath)"

text \<open>
  The functions of Node's \<^verbatim>\<open>path\<close> module (POSIX) that the builder calls on path strings.
  \<open>splitSlash\<close> cuts a string at every \<^verbatim>\<open>/\<close>. \<open>normalizeString\<close> goes through the segments:
  an empty segment and \<^verbatim>\<open>.\<close> are dropped, \<^verbatim>\<open>..\<close> removes the segment before it, or is kept
  when there is none and the path is relative; \<open>res\<close> holds the segments kept so far, the
  last one first. \<^verbatim>\<open>path.normalize\<close> keeps a leading and a trailing \<^verbatim>\<open>/\<close>. \<^verbatim>\<open>path.join\<close> of two
  strings joins the non-empty ones with \<^verbatim>\<open>/\<close> and normalizes. \<^verbatim>\<open>path.basename\<close> drops the
  trailing \<^verbatim>\<open>/\<close>s and gives what follows the last \<^verbatim>\<open>/\<close> before them.
\<close>

fun splitSlash :: "string \<Rightarrow> string list" where
  "splitSlash [] = [[]]"
| "splitSlash (c # cs) =
     (if c = CHR ''/'' then [] # splitSlash cs
      else (case splitSlash cs of [] \<Rightarrow> [[c]] | w # ws \<Rightarrow> (c # w) # ws))"

fun joinSegs :: "string list \<Rightarrow> string" where
  "joinSegs [] = []"
| "joinSegs [s] = s"
| "joinSegs (s # t) = s @ ''/'' @ joinSegs t"

fun normalizeString :: "bool \<Rightarrow> string list \<Rightarrow> string list \<Rightarrow> string list" where
  "normalizeString allowAboveRoot [] res = rev res"
| "normalizeString allowAboveRoot (s # ss) res =
     (if s = [] \<or> s = ''.'' then normalizeString allowAboveRoot ss res
      else if s = ''..''
      then (if res \<noteq> [] \<and> hd res \<noteq> ''..'' then normalizeString allowAboveRoot ss (tl res)
            else if allowAboveRoot then normalizeString allowAboveRoot ss (''..'' # res)
            else normalizeString allowAboveRoot ss res)
      else normalizeString allowAboveRoot ss (s # res))"

definition normalize :: "string \<Rightarrow> string" where
  "normalize p =
     (if p = [] then ''.''
      else (let isAbsolute = (hd p = CHR ''/'');
                trailingSeparator = (last p = CHR ''/'');
                q = joinSegs (normalizeString (\<not> isAbsolute) (splitSlash p) [])
            in if q = [] then (if isAbsolute then ''/'' else if trailingSeparator then ''./'' else ''.'')
               else (if isAbsolute then ''/'' else []) @ q @ (if trailingSeparator then ''/'' else [])))"

definition pathJoin :: "string \<Rightarrow> string \<Rightarrow> string" where
  "pathJoin a b =
     (if a = [] \<and> b = [] then ''.''
      else if a = [] then normalize b
      else if b = [] then normalize a
      else normalize (a @ ''/'' @ b))"

definition basename :: "string \<Rightarrow> string" where
  "basename p = rev (takeWhile (\<lambda>c. c \<noteq> CHR ''/'') (dropWhile (\<lambda>c. c = CHR ''/'') (rev p)))"

text \<open>
  A path below the repository is the list of its segments, the names that
  \<^verbatim>\<open>fs.readdirSync\<close> returns on the way down; the empty list is the repository directory
  itself. \<open>joinSegs\<close> is the string \<^verbatim>\<open>path.relative\<close> returns for it, \<open>relString\<close> is
  \<^verbatim>\<open>path.relative(repoPath, dirPath) || '.'\<close>, which is also what \<^verbatim>\<open>path.dirname\<close> gives for
  the parent of a single segment; \<^verbatim>\<open>path.dirname\<close> of a relative path is \<open>butlast\<close> of the
  segments. \<open>absString\<close> is the path string itself: \<^verbatim>\<open>repoInfo.localPath\<close> as it is given for
  the repository directory, and below it what \<^verbatim>\<open>path.join(dirPath, entry)\<close> builds at each
  level, in \<^verbatim>\<open>processDirectory\<close> and in the scanner that yields \<^verbatim>\<open>files\<close>. \<open>baseNameOf\<close> is
  \<^verbatim>\<open>path.basename\<close> of that string.
\<close>

type_synonym path = "string list"

definition relString :: "path \<Rightarrow> string" where
  "relString p = (if p = [] then ''.'' else joinSegs p)"

definition absString :: "string \<Rightarrow> path \<Rightarrow> string" where
  "absString localPath p = fold (\<lambda>entry dirPath. pathJoin dirPath entry) p localPath"

definition baseNameOf :: "string \<Rightarrow> path \<Rightarrow> string" where
  "baseNameOf localPath p = basename (absString localPath p)"

text \<open>Decimal digits of a number inside a template literal.\<close>

fun digits :: "nat \<Rightarrow> string" where
  "digits n =
     (if n < 10 then [char_of (48 + n)] else digits (n div 10) @ [char_of (48 + n mod 10)])"

declare digits.simps [simp del]

text \<open>
  A JavaScript \<^verbatim>\<open>Map\<close> keeps its entries in insertion order; \<^verbatim>\<open>set\<close> on a present key
  replaces the value in place, on a new key appends.
\<close>

type_synonym ('k, 'v) jsmap = "('k \<times> 'v) list"

definition has :: "('k, 'v) jsmap \<Rightarrow> 'k \<Rightarrow> bool" where
  "has m k = (map_of m k \<noteq> None)"

fun mapSet :: "'k \<Rightarrow> 'v \<Rightarrow> ('k, 'v) jsmap \<Rightarrow> ('k, 'v) jsmap" where
  "mapSet k v [] = [(k, v)]"
| "mapSet k v ((k', v') # m) = (if k' = k then (k, v) # m else (k', v') # mapSet k v m)"

record RepoInfo =
  repoId :: string
  localPath :: string

text \<open>(The fields \<^verbatim>\<open>remoteUrl\<close>, \<^verbatim>\<open>branch\<close>, \<^verbatim>\<open>isGit\<close> and \<^verbatim>\<open>commitSha\<close> are not read by the
  graph builder.)\<close>

record GraphData =
  nodes :: "(string, GraphNodeData) jsmap"
  edges :: "GraphEdgeData list"

subsection \<open>The environment: file system and clock\<close>

text \<open>
  The file system below \<^verbatim>\<open>repoInfo.localPath\<close>. A file has a size and a content; a
  directory lists its entries in the order \<^verbatim>\<open>fs.readdirSync\<close> returns them; \<open>FsBroken\<close>
  is an entry on which \<^verbatim>\<open>fs.statSync\<close> throws (a dangling link, a missing permission).
\<close>

datatype fsnode = FsFile nat content | FsDir "(string \<times> fsnode) list" | FsBroken

fun lookup :: "fsnode \<Rightarrow> path \<Rightarrow> fsnode option" where
  "lookup n [] = Some n"
| "lookup (FsDir es) (s # p) = (case map_of es s of None \<Rightarrow> None | Some c \<Rightarrow> lookup c p)"
| "lookup n (s # p) = None"

text \<open>
  Time stamps. Every folder, file and root node is created at most once in a run, under
  a guard on its id, so the two readings of \<^verbatim>\<open>new Date()\<close> at a creation are indexed by the
  id of the node created; the times \<^verbatim>\<open>fs.statSync\<close> reports are indexed by the path.
\<close>

record clock =
  createdNow :: "string \<Rightarrow> string"
  modifiedNow :: "string \<Rightarrow> string"
  statCtime :: "string \<Rightarrow> string"
  statMtime :: "string \<Rightarrow> string"

subsection \<open>edgeExists, addUniqueEdge\<close>

definition edgeExists :: "GraphEdgeData list \<Rightarrow> string \<Rightarrow> string \<Rightarrow> string \<Rightarrow> string \<Rightarrow> bool" where
  "edgeExists es sourceId targetId ty r =
     list_ex (\<lambda>e. e_sourceId e = sourceId \<and> e_targetId e = targetId \<and> e_type e = ty \<and>
                   (e_repoId e = Some r \<or> e_repoId e = None)) es"

definition mkEdge :: "string \<Rightarrow> string \<Rightarrow> string \<Rightarrow> string \<Rightarrow> GraphEdgeData" where
  "mkEdge sourceId targetId ty r =
     \<lparr>e_sourceId = sourceId, e_targetId = targetId, e_type = ty, e_repoId = Some r\<rparr>"

definition addUniqueEdge ::
  "GraphEdgeData list \<Rightarrow> string \<Rightarrow> string \<Rightarrow> string \<Rightarrow> string \<Rightarrow> bool \<times> GraphEdgeData list" where
  "addUniqueEdge es sourceId targetId ty r =
     (let exactMatch = list_ex (\<lambda>e. e_sourceId e = sourceId \<and> e_targetId e = targetId \<and>
                                     e_type e = ty \<and> e_repoId e = Some r) es in
      if exactMatch then (False, es)
      else if ty = ''CONTAINS'' \<and>
              list_ex (\<lambda>e. e_sourceId e = targetId \<and> e_targetId e = sourceId \<and>
                           e_type e = ty \<and> e_repoId e = Some r) es
      then (False, es)
      else (True, es @ [mkEdge sourceId targetId ty r]))"

subsection \<open>ensureFolderNode\<close>

definition folderNode :: "clock \<Rightarrow> string \<Rightarrow> string \<Rightarrow> path \<Rightarrow> GraphNodeData" where
  "folderNode C nodeId r p =
     \<lparr>n_nodeId = nodeId, n_repoId = r, n_name = basename (relString p), n_type = ''FOLDER'',
      n_filePath = relString p, n_startLine = 0, n_endLine = 0, n_text = None,
      n_isDirectory = Some True, n_createdAt = Some (createdNow C nodeId),
      n_modifiedAt = Some (modifiedNow C nodeId), n_isReference = None\<rparr>"

text \<open>
  The source ends with a second \<^verbatim>\<open>if (!graph.nodes.has(nodeId))\<close> block that stats the
  folder and stores the node again. The node was stored before the recursive call and
  nothing removes a node, so the guard is false there (lemma \<open>ensure_has\<close>
  below) and the block is left out.
\<close>

function ensureFolderNode ::
  "clock \<Rightarrow> (string \<Rightarrow> string) \<Rightarrow> GraphData \<Rightarrow> string \<Rightarrow> path \<Rightarrow> string \<times> GraphData" where
  "ensureFolderNode C H g r p =
     (if relString p = ''.'' then (generateNodeId H r ''repo:root'', g)
      else (let nodeId = generateNodeId H r (''folder:'' @ relString p) in
            if has (nodes g) nodeId then (nodeId, g)
            else (let g1 = g\<lparr>nodes := mapSet nodeId (folderNode C nodeId r p) (nodes g)\<rparr>;
                      (parentId, g2) = ensureFolderNode C H g1 r (butlast p);
                      g3 = g2\<lparr>edges := snd (addUniqueEdge (edges g2) parentId nodeId ''CONTAINS'' r)\<rparr>
                  in (nodeId, g3))))"
  by pat_completeness auto
termination
  by (relation "measure (\<lambda>(C, H, g, r, p). length p)") (auto simp: relString_def split: if_splits)

declare ensureFolderNode.simps [simp del]

subsection \<open>Processing one file's tags\<close>

record build_state =
  graph :: GraphData
  definitions :: "string \<rightharpoonup> Tag"
  references :: "Tag list"
  mtables :: module_state

definition defNode :: "string \<Rightarrow> string \<Rightarrow> string \<Rightarrow> Tag \<Rightarrow> GraphNodeData" where
  "defNode nodeId r relativePath tag =
     \<lparr>n_nodeId = nodeId, n_repoId = r, n_name = t_name tag, n_type = t_type tag,
      n_filePath = relativePath, n_startLine = t_startLine tag, n_endLine = t_endLine tag,
      n_text = t_text tag, n_isDirectory = None, n_createdAt = None, n_modifiedAt = None,
      n_isReference = None\<rparr>"

text \<open>
  The body of \<^verbatim>\<open>for (const tag of tags)\<close>, which the loop over \<^verbatim>\<open>files\<close> and
  \<^verbatim>\<open>processFile\<close> share but for their log lines. \<open>filePath\<close> is the absolute path.
\<close>

definition processTag ::
  "(string \<Rightarrow> string) \<Rightarrow> string \<Rightarrow> string \<Rightarrow> string \<Rightarrow> string \<Rightarrow> Tag \<Rightarrow> build_state \<Rightarrow> build_state" where
  "processTag H r filePath relativePath fileNodeId tag st =
     (case t_kind tag of
        Def \<Rightarrow>
          (let nodeId = generateNodeId H r
                          (filePath @ '':'' @ t_name tag @ '':'' @ digits (t_startLine tag));
               g = graph st;
               ns = mapSet nodeId (defNode nodeId r relativePath tag) (nodes g);
               es = (if \<not> edgeExists (edges g) fileNodeId nodeId ''CONTAINS'' r
                     then edges g @ [mkEdge fileNodeId nodeId ''CONTAINS'' r] else edges g)
           in st\<lparr>graph := \<lparr>nodes = ns, edges = es\<rparr>,
                 definitions := (definitions st)(t_name tag @ '':'' @ t_type tag \<mapsto> tag)\<rparr>)
      | Ref \<Rightarrow> st\<lparr>references := references st @ [tag]\<rparr>)"

subsection \<open>processFile and processDirectory\<close>

definition fileNode ::
  "string \<Rightarrow> string \<Rightarrow> string \<Rightarrow> string \<Rightarrow> string \<Rightarrow> string \<Rightarrow> GraphNodeData" where
  "fileNode nodeId r fileName relativePath created modified =
     \<lparr>n_nodeId = nodeId, n_repoId = r, n_name = fileName, n_type = ''FILE'',
      n_filePath = relativePath, n_startLine = 0, n_endLine = 0, n_text = None,
      n_isDirectory = Some False, n_createdAt = Some created, n_modifiedAt = Some modified,
      n_isReference = None\<rparr>"

text \<open>
  \<open>processFile C H G info p c parentNodeId st\<close> for the file at \<open>p\<close> with content
  \<open>c\<close>. The caller has just called \<^verbatim>\<open>fs.statSync\<close> on this path, so the call here returns.
  A rejected \<^verbatim>\<open>parseFile\<close> is caught and logged; a pending one is awaited for ever.
\<close>

definition processFile ::
  "clock \<Rightarrow> (string \<Rightarrow> string) \<Rightarrow> string set \<Rightarrow> RepoInfo \<Rightarrow> path \<Rightarrow> content \<Rightarrow> string \<Rightarrow>
     build_state \<Rightarrow> unit outcome \<times> build_state" where
  "processFile C H G info p c parentNodeId st =
     (let r = repoId info;
          filePath = absString (localPath info) p;
          relativePath = joinSegs p;
          fileName = baseNameOf (localPath info) p;
          fileNodeId = generateNodeId H r (''file:'' @ relativePath);
          g = graph st;
          st1 = (if \<not> has (nodes g) fileNodeId
                 then st\<lparr>graph :=
                   \<lparr>nodes = mapSet fileNodeId
                       (fileNode fileNodeId r fileName relativePath
                          (statCtime C filePath) (statMtime C filePath)) (nodes g),
                    edges = snd (addUniqueEdge (edges g) parentNodeId fileNodeId ''CONTAINS'' r)\<rparr>\<rparr>
                 else st)
      in case parseFile G (mtables st1) c fileName relativePath of
           (Resolved ts, ms) \<Rightarrow>
             (Resolved (), fold (processTag H r filePath relativePath fileNodeId) ts
                             (st1\<lparr>mtables := ms\<rparr>))
         | (Rejected, ms) \<Rightarrow> (Resolved (), st1\<lparr>mtables := ms\<rparr>)
         | (Pending, ms) \<Rightarrow> (Pending, st1\<lparr>mtables := ms\<rparr>))"

definition dirNode ::
  "clock \<Rightarrow> string \<Rightarrow> RepoInfo \<Rightarrow> path \<Rightarrow> GraphNodeData" where
  "dirNode C nodeId info p =
     (let relativePath = relString p; dirPath = absString (localPath info) p in
      \<lparr>n_nodeId = nodeId, n_repoId = repoId info,
       n_name = (if relativePath = ''.'' then basename (localPath info)
                 else baseNameOf (localPath info) p),
       n_type = (if relativePath = ''.'' then ''REPOSITORY'' else ''FOLDER''),
       n_filePath = relativePath, n_startLine = 0, n_endLine = 0, n_text = None,
       n_isDirectory = Some True, n_createdAt = Some (statCtime C dirPath),
       n_modifiedAt = Some (statMtime C dirPath), n_isReference = None\<rparr>)"

text \<open>The first block of \<^verbatim>\<open>processDirectory\<close>, for a directory on which
  \<^verbatim>\<open>fs.statSync\<close> returns: the directory node and the edge from its parent.\<close>

definition ensureDirNode ::
  "clock \<Rightarrow> (string \<Rightarrow> string) \<Rightarrow> RepoInfo \<Rightarrow> path \<Rightarrow> string \<Rightarrow> build_state \<Rightarrow> build_state" where
  "ensureDirNode C H info p parentNodeId st =
     (let r = repoId info;
          relativePath = relString p;
          dirNodeId = generateNodeId H r (''folder:'' @ relativePath);
          g = graph st in
      if \<not> has (nodes g) dirNodeId
      then st\<lparr>graph :=
             \<lparr>nodes = mapSet dirNodeId (dirNode C dirNodeId info p) (nodes g),
              edges = (if relativePath \<noteq> ''.'' \<and> parentNodeId \<noteq> dirNodeId \<and>
                          \<not> edgeExists (edges g) parentNodeId dirNodeId ''CONTAINS'' r
                       then edges g @ [mkEdge parentNodeId dirNodeId ''CONTAINS'' r]
                       else edges g)\<rparr>\<rparr>
      else st)"

text \<open>
  \<open>processDirectory C H G info p n parentNodeId st\<close> for the entry \<open>n\<close> at path \<open>p\<close>.
  Its whole body is inside \<^verbatim>\<open>try\<close>: an exception ends the work on this directory, is logged,
  and the call returns normally with what was done before. \<open>processEntries\<close> is the loop
  over \<^verbatim>\<open>fs.readdirSync(dirPath)\<close>; it gives \<open>Rejected\<close> when \<^verbatim>\<open>fs.statSync\<close> throws on an
  entry.
\<close>

function processDirectory ::
  "clock \<Rightarrow> (string \<Rightarrow> string) \<Rightarrow> string set \<Rightarrow> RepoInfo \<Rightarrow> path \<Rightarrow> fsnode \<Rightarrow> string \<Rightarrow>
     build_state \<Rightarrow> unit outcome \<times> build_state"
and processEntries ::
  "clock \<Rightarrow> (string \<Rightarrow> string) \<Rightarrow> string set \<Rightarrow> RepoInfo \<Rightarrow> path \<Rightarrow> (string \<times> fsnode) list \<Rightarrow> string \<Rightarrow>
     build_state \<Rightarrow> unit outcome \<times> build_state"
where
  "processDirectory C H G info p (FsDir es) parentNodeId st =
     (let dirNodeId = generateNodeId H (repoId info) (''folder:'' @ relString p) in
      case processEntries C H G info p es dirNodeId (ensureDirNode C H info p parentNodeId st) of
        (Rejected, st') \<Rightarrow> (Resolved (), st')
      | res \<Rightarrow> res)"
| "processDirectory C H G info p (FsFile sz c) parentNodeId st =
     (Resolved (), ensureDirNode C H info p parentNodeId st)"
| "processDirectory C H G info p FsBroken parentNodeId st = (Resolved (), st)"
| "processEntries C H G info p [] dirNodeId st = (Resolved (), st)"
| "processEntries C H G info p ((entry, child) # es) dirNodeId st =
     (case child of
        FsBroken \<Rightarrow> (Rejected, st)
      | FsDir sub \<Rightarrow>
          if (entry \<noteq> [] \<and> hd entry = CHR ''.'') \<or> entry = ''node_modules''
          then processEntries C H G info p es dirNodeId st
          else (case processDirectory C H G info (p @ [entry]) child dirNodeId st of
                  (Resolved u, st') \<Rightarrow> processEntries C H G info p es dirNodeId st'
                | res \<Rightarrow> res)
      | FsFile sz c \<Rightarrow>
          if isSourceFile entry
          then (case processFile C H G info (p @ [entry]) c dirNodeId st of
                  (Resolved u, st') \<Rightarrow> processEntries C H G info p es dirNodeId st'
                | res \<Rightarrow> res)
          else processEntries C H G info p es dirNodeId st)"
  by pat_completeness auto
termination
  by (relation "measure (\<lambda>x. case x of
          Inl (C, H, G, info, p, n, par, st) \<Rightarrow> size n
        | Inr (C, H, G, info, p, es, d, st) \<Rightarrow> size_list (size_prod (\<lambda>s. 0) size) es)") auto

subsection \<open>The loop over the files argument\<close>

text \<open>
  The body of \<^verbatim>\<open>for (const filePath of files)\<close>, for the file at \<open>p\<close> in the file system
  \<open>fs\<close>. A file whose node exists, an empty file and a path on which \<^verbatim>\<open>fs.statSync\<close>
  throws are skipped. \<^verbatim>\<open>parseFile\<close> is awaited outside any \<^verbatim>\<open>try\<close>: its rejection is the
  rejection of \<^verbatim>\<open>buildGraph\<close>. A directory has a size other than 0 and cannot be read as
  a file.
\<close>

definition fileStep ::
  "clock \<Rightarrow> (string \<Rightarrow> string) \<Rightarrow> string set \<Rightarrow> RepoInfo \<Rightarrow> fsnode \<Rightarrow> path \<Rightarrow>
     build_state \<Rightarrow> unit outcome \<times> build_state" where
  "fileStep C H G info fs p st =
     (let r = repoId info;
          filePath = absString (localPath info) p;
          relativePath = joinSegs p;
          fileName = baseNameOf (localPath info) p;
          fileNodeId = generateNodeId H r (''file:'' @ relativePath);
          stat = (case lookup fs p of
                    None \<Rightarrow> None
                  | Some FsBroken \<Rightarrow> None
                  | Some (FsFile sz c) \<Rightarrow> if sz = 0 then None else Some c
                  | Some (FsDir es) \<Rightarrow> Some Unreadable)
      in if has (nodes (graph st)) fileNodeId then (Resolved (), st)
         else (case stat of
                 None \<Rightarrow> (Resolved (), st)
               | Some c \<Rightarrow>
                   (let (parentNodeId, g1) = ensureFolderNode C H (graph st) r (butlast p);
                        g2 = \<lparr>nodes = mapSet fileNodeId
                                 (fileNode fileNodeId r fileName relativePath
                                    (createdNow C fileNodeId) (modifiedNow C fileNodeId)) (nodes g1),
                              edges = snd (addUniqueEdge (edges g1) parentNodeId fileNodeId
                                             ''CONTAINS'' r)\<rparr>;
                        st1 = st\<lparr>graph := g2\<rparr>
                    in case parseFile G (mtables st1) c fileName relativePath of
                         (Resolved ts, ms) \<Rightarrow>
                           (Resolved (), fold (processTag H r filePath relativePath fileNodeId) ts
                                           (st1\<lparr>mtables := ms\<rparr>))
                       | (Rejected, ms) \<Rightarrow> (Rejected, st1\<lparr>mtables := ms\<rparr>)
                       | (Pending, ms) \<Rightarrow> (Pending, st1\<lparr>mtables := ms\<rparr>))))"

fun processFiles ::
  "clock \<Rightarrow> (string \<Rightarrow> string) \<Rightarrow> string set \<Rightarrow> RepoInfo \<Rightarrow> fsnode \<Rightarrow> path list \<Rightarrow>
     build_state \<Rightarrow> unit outcome \<times> build_state" where
  "processFiles C H G info fs [] st = (Resolved (), st)"
| "processFiles C H G info fs (p # ps) st =
     (case fileStep C H G info fs p st of
        (Resolved u, st') \<Rightarrow> processFiles C H G info fs ps st'
      | res \<Rightarrow> res)"

subsection \<open>The reference resolver\<close>

record resolver_state =
  rgraph :: GraphData
  resolvedRefs :: "string set"
  resolvedCount :: nat
  missingDefinitions :: nat
  missingNodes :: nat

definition refNode :: "string \<Rightarrow> string \<Rightarrow> Tag \<Rightarrow> GraphNodeData" where
  "refNode nodeId r ref =
     \<lparr>n_nodeId = nodeId, n_repoId = r, n_name = t_name ref, n_type = t_type ref,
      n_filePath = t_filePath ref, n_startLine = t_startLine ref, n_endLine = t_endLine ref,
      n_text = t_text ref, n_isDirectory = None, n_createdAt = None, n_modifiedAt = None,
      n_isReference = Some True\<rparr>"

text \<open>
  The body of \<^verbatim>\<open>for (const ref of references)\<close>; nothing in it throws.
  \<open>resolveReference\<close> looks the definition up and computes the three ids;
  \<open>linkReference\<close> is the rest of the body, for these ids.
\<close>

definition linkReference ::
  "string \<Rightarrow> string \<Rightarrow> string \<Rightarrow> string \<Rightarrow> Tag \<Rightarrow> resolver_state \<Rightarrow> resolver_state" where
  "linkReference r refNodeId defNodeId refFileNodeId ref rs =
     (let g = rgraph rs;
          isNew = \<not> has (nodes g) refNodeId;
          ns = (if isNew then mapSet refNodeId (refNode refNodeId r ref) (nodes g) else nodes g)
      in if isNew \<and> \<not> has ns refFileNodeId
         then rs\<lparr>rgraph := g\<lparr>nodes := ns\<rparr>, missingNodes := missingNodes rs + 1\<rparr>
         else (let es = (if isNew
                         then snd (addUniqueEdge (edges g) refFileNodeId refNodeId ''CONTAINS'' r)
                         else edges g);
                   rs1 = rs\<lparr>rgraph := \<lparr>nodes = ns, edges = es\<rparr>\<rparr>;
                   refKey = refNodeId @ ''-'' @ defNodeId @ ''-REFERENCES''
               in if \<not> has ns defNodeId
                  then rs1\<lparr>missingNodes := missingNodes rs1 + 1\<rparr>
                  else if refKey \<in> resolvedRefs rs1 then rs1
                  else (case addUniqueEdge es refNodeId defNodeId ''REFERENCES'' r of
                          (True, es') \<Rightarrow>
                            rs1\<lparr>rgraph := \<lparr>nodes = ns, edges = es'\<rparr>,
                                resolvedCount := resolvedCount rs1 + 1,
                                resolvedRefs := insert refKey (resolvedRefs rs1)\<rparr>
                        | (False, es') \<Rightarrow> rs1)))"

definition resolveReference ::
  "(string \<Rightarrow> string) \<Rightarrow> string \<Rightarrow> (string \<rightharpoonup> Tag) \<Rightarrow> Tag \<Rightarrow> resolver_state \<Rightarrow> resolver_state" where
  "resolveReference H r defs ref rs =
     (case defs (t_name ref @ '':'' @ t_type ref) of
        None \<Rightarrow> rs\<lparr>missingDefinitions := missingDefinitions rs + 1\<rparr>
      | Some def \<Rightarrow>
          linkReference r
            (generateNodeId H r
               (''ref:'' @ t_filePath ref @ '':'' @ t_name ref @ '':'' @ digits (t_startLine ref)))
            (generateNodeId H r
               (''def:'' @ t_filePath def @ '':'' @ t_name def @ '':'' @ digits (t_startLine def)))
            (generateNodeId H r (''file:'' @ t_filePath ref))
            ref rs)"

definition resolveReferences ::
  "(string \<Rightarrow> string) \<Rightarrow> string \<Rightarrow> (string \<rightharpoonup> Tag) \<Rightarrow> Tag list \<Rightarrow> GraphData \<Rightarrow> resolver_state" where
  "resolveReferences H r defs refs g =
     fold (resolveReference H r defs) refs
       \<lparr>rgraph = g, resolvedRefs = {}, resolvedCount = 0, missingDefinitions = 0, missingNodes = 0\<rparr>"

subsection \<open>Neo4jGraph\<close>

text \<open>
  The class wraps the node map and the edge array. A method is a function from the
  object to a result and the object afterwards; a thrown \<^verbatim>\<open>Error\<close> is the left summand,
  with its message.
\<close>

datatype js_error = Error string

record Neo4jGraph =
  g_nodes :: "(string, GraphNodeData) jsmap"
  g_edges :: "GraphEdgeData list"

definition getNodes :: "Neo4jGraph \<Rightarrow> GraphNodeData list" where
  "getNodes this = map snd (g_nodes this)"

definition getEdges :: "Neo4jGraph \<Rightarrow> GraphEdgeData list" where
  "getEdges this = g_edges this"

definition numberOfNodes :: "Neo4jGraph \<Rightarrow> nat" where
  "numberOfNodes this = length (g_nodes this)"

definition numberOfEdges :: "Neo4jGraph \<Rightarrow> nat" where
  "numberOfEdges this = length (g_edges this)"

definition addNode :: "Neo4jGraph \<Rightarrow> string \<Rightarrow> GraphNodeData \<Rightarrow> (js_error + unit) \<times> Neo4jGraph" where
  "addNode this nodeId data =
     (Inl (Error ''Cannot add nodes to Neo4jGraph - it is read-only''), this)"

definition addEdge ::
  "Neo4jGraph \<Rightarrow> string \<Rightarrow> string \<Rightarrow> GraphEdgeData \<Rightarrow> (js_error + unit) \<times> Neo4jGraph" where
  "addEdge this sourceId targetId data =
     (Inl (Error ''Cannot add edges to Neo4jGraph - it is read-only''), this)"

subsection \<open>buildGraph\<close>

definition rootNode :: "clock \<Rightarrow> string \<Rightarrow> RepoInfo \<Rightarrow> GraphNodeData" where
  "rootNode C rootNodeId info =
     \<lparr>n_nodeId = rootNodeId, n_repoId = repoId info, n_name = basename (localPath info),
      n_type = ''REPOSITORY'', n_filePath = ''.'', n_startLine = 0, n_endLine = 0,
      n_text = None, n_isDirectory = Some True, n_createdAt = Some (createdNow C rootNodeId),
      n_modifiedAt = Some (modifiedNow C rootNodeId), n_isReference = None\<rparr>"

text \<open>The state in which the directory traversal starts: the root node alone.\<close>

definition initial_state :: "clock \<Rightarrow> (string \<Rightarrow> string) \<Rightarrow> RepoInfo \<Rightarrow> module_state \<Rightarrow> build_state" where
  "initial_state C H info ms =
     (let rootNodeId = generateNodeId H (repoId info) ''repo:root'' in
      \<lparr>graph = \<lparr>nodes = mapSet rootNodeId (rootNode C rootNodeId info) [], edges = []\<rparr>,
       definitions = Map.empty, references = [], mtables = ms\<rparr>)"

text \<open>The two extraction passes: the directory traversal, then the loop over \<^verbatim>\<open>files\<close>.\<close>

definition extraction ::
  "clock \<Rightarrow> (string \<Rightarrow> string) \<Rightarrow> string set \<Rightarrow> RepoInfo \<Rightarrow> fsnode \<Rightarrow> path list \<Rightarrow>
     module_state \<Rightarrow> unit outcome \<times> build_state" where
  "extraction C H G info fs files ms =
     (case processDirectory C H G info [] fs (generateNodeId H (repoId info) ''repo:root'')
             (initial_state C H info ms) of
        (Resolved u, st) \<Rightarrow> processFiles C H G info fs files st
      | res \<Rightarrow> res)"

text \<open>
  \<open>buildGraph C H G neo4jService files info fs ms\<close>: \<open>neo4jService\<close> is \<open>None\<close> for a
  missing service and otherwise what \<^verbatim>\<open>storeGraph\<close> does with the graph; \<open>files\<close> are the
  paths below \<^verbatim>\<open>repoInfo.localPath\<close>; \<open>ms\<close> are the parser's module tables when the call
  starts. The result is the outcome of the promise and the module tables afterwards.
\<close>

definition buildGraph ::
  "clock \<Rightarrow> (string \<Rightarrow> string) \<Rightarrow> string set \<Rightarrow> (Neo4jGraph \<Rightarrow> unit outcome) option \<Rightarrow>
     path list \<Rightarrow> RepoInfo \<Rightarrow> fsnode \<Rightarrow> module_state \<Rightarrow> Neo4jGraph outcome \<times> module_state" where
  "buildGraph C H G neo4jService files info fs ms =
     (case neo4jService of
        None \<Rightarrow> (Rejected, ms)
      | Some storeGraph \<Rightarrow>
          (case extraction C H G info fs files ms of
             (Resolved u, st) \<Rightarrow>
               (let rs = resolveReferences H (repoId info) (definitions st) (references st) (graph st);
                    neo4jGraph = \<lparr>g_nodes = nodes (rgraph rs), g_edges = edges (rgraph rs)\<rparr>
                in case storeGraph neo4jGraph of
                     Resolved u' \<Rightarrow> (Resolved neo4jGraph, mtables st)
                   | Rejected \<Rightarrow> (Rejected, mtables st)
                   | Pending \<Rightarrow> (Pending, mtables st))
           | (Rejected, st) \<Rightarrow> (Rejected, mtables st)
           | (Pending, st) \<Rightarrow> (Pending, mtables st)))"

section \<open>Predicates and inputs of the statements\<close>

subsection \<open>The filter\<close>

text \<open>
  The filtering rule in the specification's words: a call or constructor expression is
  excluded when it is \<^verbatim>\<open>new Error(...)\<close>, or its callee's object or property name (for a
  member call) or its bare identifier name (for a plain call) is in the set of globals.
  The name of an object or property is the name of the identifier that stands there.
\<close>

fun identifierName :: "node \<Rightarrow> string option" where
  "identifierName (Identifier l n) = Some n"
| "identifierName n = None"

definition namedIn :: "string set \<Rightarrow> node \<Rightarrow> bool" where
  "namedIn G n = (case identifierName n of None \<Rightarrow> False | Some x \<Rightarrow> x \<in> G)"

fun shouldIgnoreReference_spec :: "string set \<Rightarrow> node \<Rightarrow> bool" where
  "shouldIgnoreReference_spec G (NewExpression l callee args) = (identifierName callee = Some ''Error'')"
| "shouldIgnoreReference_spec G (CallExpression l (MemberExpression l' obj prop) args) =
     (namedIn G obj \<or> namedIn G prop)"
| "shouldIgnoreReference_spec G (CallExpression l callee args) = namedIn G callee"
| "shouldIgnoreReference_spec G n = False"

text \<open>
  What the code filters: \<^verbatim>\<open>new Error(...)\<close>, a plain call of an identifier in the set, and
  a member call whose object and property are both identifiers, one of them in the set.
\<close>

fun filteredCallee :: "string set \<Rightarrow> node \<Rightarrow> bool" where
  "filteredCallee G (NewExpression l (Identifier l' c) args) = (c = ''Error'')"
| "filteredCallee G (CallExpression l (Identifier l' c) args) = (c \<in> G)"
| "filteredCallee G
      (CallExpression l (MemberExpression l' (Identifier lo obj) (Identifier lp prop)) args) =
     (obj \<in> G \<or> prop \<in> G)"
| "filteredCallee G n = False"

text \<open>The nodes for which \<^verbatim>\<open>enter\<close> reaches a reference tag: every call expression and
  every \<^verbatim>\<open>new\<close> expression whose callee is an identifier.\<close>

fun emitsReference :: "node \<Rightarrow> bool" where
  "emitsReference (CallExpression l callee args) = True"
| "emitsReference (NewExpression l (Identifier l' c) args) = True"
| "emitsReference n = False"

subsection \<open>Example programs\<close>

definition line :: "nat \<Rightarrow> loc" where
  "line k = Some (k, k)"

definition start_state :: visitor_state where
  "start_state = \<lparr>tables = initial_module_state, currentClass = None, tags = []\<rparr>"

text \<open>\<^verbatim>\<open>console.log('x')\<close>, \<^verbatim>\<open>console['log']('x')\<close> and \<^verbatim>\<open>bar()\<close>, each on line 1.\<close>

definition consoleLog :: node where
  "consoleLog =
     CallExpression (line 1)
       (MemberExpression (line 1) (Identifier (line 1) ''console'') (Identifier (line 1) ''log''))
       [StringLiteral (line 1) ''x'']"

definition computedLog :: node where
  "computedLog =
     CallExpression (line 1)
       (MemberExpression (line 1) (Identifier (line 1) ''console'') (StringLiteral (line 1) ''log''))
       [StringLiteral (line 1) ''x'']"

definition barCall :: node where
  "barCall = CallExpression (line 1) (Identifier (line 1) ''bar'') []"

text \<open>
  \<^verbatim>\<open>class Outer { m() { class Inner {} } n() {} }\<close> on lines 1 to 5: a class declared
  inside a method of another class, followed by a second method of the outer class.
\<close>

definition nestedClasses :: node where
  "nestedClasses =
     ClassDeclaration (Some (1, 5)) (Some ''Outer'')
       [Other (Some (1, 5))
          [ClassMethod (Some (2, 2)) False [] (Identifier (line 2) ''m'')
             [Other (Some (2, 2)) [ClassDeclaration (Some (2, 2)) (Some ''Inner'') [Other (line 2) []]]],
           ClassMethod (Some (4, 4)) False [] (Identifier (line 4) ''n'') [Other (line 4) []]]]"

text \<open>
  \<^verbatim>\<open>a.ts\<close> is \<^verbatim>\<open>export function helper() {}\<close>; \<^verbatim>\<open>b.ts\<close> is
  \<^verbatim>\<open>import { helper } from './a'; helper();\<close>; \<^verbatim>\<open>c.ts\<close> is \<^verbatim>\<open>helper();\<close> alone.
\<close>

definition exporter :: content where
  "exporter =
     Program [Other (line 1) [FunctionDeclaration (line 1) (Some ''helper'') [Other (line 1) []]]]"

definition importer :: content where
  "importer =
     Program [ImportDeclaration (line 1) [ImportSpecifier ''helper'' ''helper''] ''./a'',
              Other (line 2) [CallExpression (line 2) (Identifier (line 2) ''helper'') []]]"

definition caller :: content where
  "caller = Program [Other (line 1) [CallExpression (line 1) (Identifier (line 1) ''helper'') []]]"

subsection \<open>Example runs\<close>

text \<open>A clock, a repository at \<^verbatim>\<open>/repo\<close> with id \<^verbatim>\<open>r\<close>, and a store that succeeds.\<close>

definition clock0 :: clock where
  "clock0 = \<lparr>createdNow = (\<lambda>k. ''2025-01-01T00:00:00.000Z''),
             modifiedNow = (\<lambda>k. ''2025-01-01T00:00:00.001Z''),
             statCtime = (\<lambda>k. ''2024-12-31T00:00:00.000Z''),
             statMtime = (\<lambda>k. ''2024-12-31T00:00:01.000Z'')\<rparr>"

definition repo :: RepoInfo where
  "repo = \<lparr>repoId = ''r'', localPath = ''/repo''\<rparr>"

definition storeOk :: "Neo4jGraph \<Rightarrow> unit outcome" where
  "storeOk g = Resolved ()"

text \<open>The graph a settled \<^verbatim>\<open>buildGraph\<close> resolved with.\<close>

definition resolvedGraph :: "Neo4jGraph outcome \<times> module_state \<Rightarrow> Neo4jGraph option" where
  "resolvedGraph res = (case fst res of Resolved g \<Rightarrow> Some g | _ \<Rightarrow> None)"

text \<open>How a statement shows an edge: source, type and target.\<close>

definition edgeTriple :: "GraphEdgeData \<Rightarrow> string \<times> string \<times> string" where
  "edgeTriple e = (e_sourceId e, e_type e, e_targetId e)"

text \<open>
  Scenario 2 of the specification: \<^verbatim>\<open>a.ts\<close> holds \<^verbatim>\<open>function helper(){}\<close> and \<^verbatim>\<open>b.ts\<close>
  holds \<^verbatim>\<open>helper();\<close>.
\<close>

definition definer :: content where
  "definer = Program [FunctionDeclaration (line 1) (Some ''helper'') [Other (line 1) []]]"

definition twoFiles :: fsnode where
  "twoFiles = FsDir [(''a.ts'', FsFile 20 definer), (''b.ts'', FsFile 9 caller)]"

text \<open>
  A repository that holds \<^verbatim>\<open>README.md\<close> alone, and one whose only source file sits in the
  hidden directory \<^verbatim>\<open>.config\<close> and does not parse.
\<close>

definition readmeOnly :: fsnode where
  "readmeOnly = FsDir [(''README.md'', FsFile 120 SyntaxError)]"

definition hiddenBroken :: fsnode where
  "hiddenBroken = FsDir [(''.config'', FsDir [(''bad.ts'', FsFile 40 SyntaxError)])]"

text \<open>
  A reference tag as the resolver would need it to match the definition of \<^verbatim>\<open>helper\<close>:
  name \<^verbatim>\<open>helper\<close> and the definition's type \<^verbatim>\<open>function\<close>.
\<close>

definition helperDef :: Tag where
  "helperDef = mkTag ''helper'' ''function'' Def ''a.ts'' None
     (FunctionDeclaration (line 1) (Some ''helper'') [Other (line 1) []]) None"

definition matchingRef :: Tag where
  "matchingRef = mkTag ''helper'' ''function'' Ref ''b.ts'' None
     (CallExpression (line 1) (Identifier (line 1) ''helper'') []) None"

subsection \<open>Containment paths\<close>

text \<open>\<open>containsPath es a b\<close>: \<open>b\<close> is reached from \<open>a\<close> along CONTAINS edges of \<open>es\<close>.\<close>

inductive containsPath :: "GraphEdgeData list \<Rightarrow> string \<Rightarrow> string \<Rightarrow> bool" for es :: "GraphEdgeData list" where
  here: "containsPath es a a"
| step: "containsPath es a b \<Longrightarrow> e \<in> set es \<Longrightarrow> e_type e = ''CONTAINS'' \<Longrightarrow>
         e_sourceId e = b \<Longrightarrow> e_targetId e = c \<Longrightarrow> containsPath es a c"

subsection \<open>The folder hierarchy\<close>

text \<open>
  The ids of the root node and of a folder's node; \<open>folderRef\<close> is the id that
  \<^verbatim>\<open>ensureFolderNode\<close> returns for a path. \<open>chainIds\<close> lists the ids of a folder, its
  ancestors and the root. \<open>connected g p\<close>: the folder and each of its ancestors has a node
  in \<open>g\<close> and a CONTAINS edge from its parent's node, up to the root. \<open>ready g p\<close>: the
  nearest ancestor-or-self of \<open>p\<close> that has a node in \<open>g\<close> is connected; this is where
  \<^verbatim>\<open>ensureFolderNode\<close> stops creating nodes. \<open>sourcesExist g\<close>: every edge of \<open>g\<close> starts
  at a node of \<open>g\<close>.
\<close>

definition rootId :: "(string \<Rightarrow> string) \<Rightarrow> string \<Rightarrow> string" where
  "rootId H r = generateNodeId H r ''repo:root''"

definition folderId :: "(string \<Rightarrow> string) \<Rightarrow> string \<Rightarrow> path \<Rightarrow> string" where
  "folderId H r p = generateNodeId H r (''folder:'' @ relString p)"

definition folderRef :: "(string \<Rightarrow> string) \<Rightarrow> string \<Rightarrow> path \<Rightarrow> string" where
  "folderRef H r p = (if relString p = ''.'' then rootId H r else folderId H r p)"

function chainIds :: "(string \<Rightarrow> string) \<Rightarrow> string \<Rightarrow> path \<Rightarrow> string list" where
  "chainIds H r p = (if relString p = ''.'' then [rootId H r] else folderId H r p # chainIds H r (butlast p))"
  by pat_completeness auto
termination
  by (relation "measure (\<lambda>(H, r, p). length p)") (auto simp: relString_def split: if_splits)

declare chainIds.simps [simp del]

function connected :: "(string \<Rightarrow> string) \<Rightarrow> string \<Rightarrow> GraphData \<Rightarrow> path \<Rightarrow> bool" where
  "connected H r g p =
     (if relString p = ''.'' then True
      else has (nodes g) (folderId H r p) \<and>
           mkEdge (folderRef H r (butlast p)) (folderId H r p) ''CONTAINS'' r \<in> set (edges g) \<and>
           connected H r g (butlast p))"
  by pat_completeness auto
termination
  by (relation "measure (\<lambda>(H, r, g, p). length p)") (auto simp: relString_def split: if_splits)

declare connected.simps [simp del]

function ready :: "(string \<Rightarrow> string) \<Rightarrow> string \<Rightarrow> GraphData \<Rightarrow> path \<Rightarrow> bool" where
  "ready H r g p =
     (if relString p = ''.'' then True
      else if has (nodes g) (folderId H r p) then connected H r g p
      else ready H r g (butlast p))"
  by pat_completeness auto
termination
  by (relation "measure (\<lambda>(H, r, g, p). length p)") (auto simp: relString_def split: if_splits)

declare ready.simps [simp del]

definition sourcesExist :: "GraphData \<Rightarrow> bool" where
  "sourcesExist g = list_all (\<lambda>e. has (nodes g) (e_sourceId e)) (edges g)"

text \<open>The graph in which \<^verbatim>\<open>buildGraph\<close> starts, in the example run.\<close>

definition graph0 :: GraphData where
  "graph0 = graph (initial_state clock0 (\<lambda>s. s) repo initial_module_state)"

subsection \<open>The edge invariant\<close>

text \<open>\<open>containsBetween es a b\<close>: the CONTAINS edges of \<open>es\<close> between \<open>a\<close> and \<open>b\<close>, in either
  direction.\<close>

definition containsBetween :: "GraphEdgeData list \<Rightarrow> string \<Rightarrow> string \<Rightarrow> GraphEdgeData list" where
  "containsBetween es a b =
     filter (\<lambda>e. e_type e = ''CONTAINS'' \<and>
                  ((e_sourceId e = a \<and> e_targetId e = b) \<or> (e_sourceId e = b \<and> e_targetId e = a))) es"

text \<open>
  The ids of nodes that contain others: the root, folders and files. \<open>ginv\<close> is what every
  step of \<^verbatim>\<open>buildGraph\<close> keeps: the root node exists; every edge starts at an existing node
  and carries the repository id; a CONTAINS edge starts at the root, a folder or a file;
  and between two nodes there is at most one CONTAINS edge, whatever its direction.
  \<open>grows\<close>: no node is removed. \<open>stepOk\<close>: a step ends in a graph with the invariant and
  removes no node.
\<close>

definition containerId :: "(string \<Rightarrow> string) \<Rightarrow> string \<Rightarrow> string \<Rightarrow> bool" where
  "containerId H r k =
     (k = rootId H r \<or> (\<exists>x. k = generateNodeId H r (''folder:'' @ x)) \<or>
      (\<exists>x. k = generateNodeId H r (''file:'' @ x)))"

definition ginv :: "(string \<Rightarrow> string) \<Rightarrow> string \<Rightarrow> (string, GraphNodeData) jsmap \<Rightarrow> GraphEdgeData list \<Rightarrow> bool" where
  "ginv H r ns es =
     (has ns (rootId H r) \<and>
      (\<forall>e \<in> set es. has ns (e_sourceId e) \<and> e_repoId e = Some r \<and>
                     (e_type e = ''CONTAINS'' \<longrightarrow> containerId H r (e_sourceId e))) \<and>
      (\<forall>a b. length (containsBetween es a b) \<le> 1))"

definition grows :: "('k, 'v) jsmap \<Rightarrow> ('k, 'v) jsmap \<Rightarrow> bool" where
  "grows ns ns' = (\<forall>k. has ns k \<longrightarrow> has ns' k)"

definition stepOk :: "(string \<Rightarrow> string) \<Rightarrow> string \<Rightarrow> GraphData \<Rightarrow> GraphData \<Rightarrow> bool" where
  "stepOk H r g g' = (ginv H r (nodes g') (edges g') \<and> grows (nodes g) (nodes g'))"

text \<open>
  What the lemmas on the invariant need of the environment: a digest without any
  collision, and an absolute \<^verbatim>\<open>repoInfo.localPath\<close>, so that the id of a definition (hashed
  from the absolute file path) is never the id of the root, a folder or a file. The
  digest of the program has collisions; the lemmas are used for the run with the identity
  as digest, in which the id of a node is the hashed string itself.
\<close>

definition env_ok :: "(string \<Rightarrow> string) \<Rightarrow> RepoInfo \<Rightarrow> bool" where
  "env_ok H info = (inj H \<and> localPath info \<noteq> [] \<and> hd (localPath info) = CHR ''/'')"

subsection \<open>Runs that differ in time only\<close>

text \<open>
  A syntax tree as a parser gives it: no identifier holds the character \<^verbatim>\<open>#\<close> (a private
  name is not an identifier). \<open>fsOk\<close> says so of every file of a file system.
\<close>

function identifiersOk :: "node \<Rightarrow> bool" where
  "identifiersOk n =
     ((case n of Identifier l s \<Rightarrow> CHR ''#'' \<notin> set s | _ \<Rightarrow> True) \<and>
      list_all identifiersOk (children n))"
  by pat_completeness auto
termination
  by (relation "measure size") (auto dest: children_size)

declare identifiersOk.simps [simp del]

fun contentOk :: "content \<Rightarrow> bool" where
  "contentOk (Program body) = list_all identifiersOk body"
| "contentOk c = True"

fun fsOk :: "fsnode \<Rightarrow> bool" where
  "fsOk (FsFile sz c) = contentOk c"
| "fsOk (FsDir es) = list_all (\<lambda>x. fsOk (snd x)) es"
| "fsOk FsBroken = True"

text \<open>The tables that only \<^verbatim>\<open>parseFile\<close> reads are empty, as when the process starts.\<close>

definition inert :: "module_state \<Rightarrow> bool" where
  "inert ms = (DEFINED_SYMBOLS ms = Map.empty \<and> EXPORT_MAP ms = Map.empty \<and> IMPORT_RESOLVER ms = Map.empty)"

text \<open>
  A node without its time stamps; graphs, builder states and resolver states that are equal
  but for the time stamps of their nodes; and two results that settle the same way, in
  states equal in this sense, the first with the module tables \<open>ms\<close>.
\<close>

definition stripNode :: "GraphNodeData \<Rightarrow> GraphNodeData" where
  "stripNode n = n\<lparr>n_createdAt := None, n_modifiedAt := None\<rparr>"

definition stripNodes :: "(string, GraphNodeData) jsmap \<Rightarrow> (string, GraphNodeData) jsmap" where
  "stripNodes m = map (\<lambda>kv. (fst kv, stripNode (snd kv))) m"

definition sameGraph :: "GraphData \<Rightarrow> GraphData \<Rightarrow> bool" where
  "sameGraph g g' = (stripNodes (nodes g) = stripNodes (nodes g') \<and> edges g = edges g')"

definition sameState :: "build_state \<Rightarrow> build_state \<Rightarrow> bool" where
  "sameState st st' =
     (sameGraph (graph st) (graph st') \<and> definitions st = definitions st' \<and>
      references st = references st' \<and> mtables st = mtables st')"

definition agree :: "'a \<times> build_state \<Rightarrow> 'a \<times> build_state \<Rightarrow> module_state \<Rightarrow> bool" where
  "agree a b ms = (fst a = fst b \<and> sameState (snd a) (snd b) \<and> mtables (snd a) = ms)"

definition sameResolver :: "resolver_state \<Rightarrow> resolver_state \<Rightarrow> bool" where
  "sameResolver rs rs' =
     (sameGraph (rgraph rs) (rgraph rs') \<and> resolvedRefs rs = resolvedRefs rs' \<and>
      resolvedCount rs = resolvedCount rs' \<and> missingDefinitions rs = missingDefinitions rs' \<and>
      missingNodes rs = missingNodes rs')"

text \<open>What is compared of two graphs: the node ids, the edges, and the two counts.\<close>

definition graphView :: "Neo4jGraph \<Rightarrow> string list \<times> GraphEdgeData list \<times> nat \<times> nat" where
  "graphView g = (map n_nodeId (getNodes g), getEdges g, numberOfNodes g, numberOfEdges g)"

text \<open>Another clock.\<close>

definition clock1 :: clock where
  "clock1 = \<lparr>createdNow = (\<lambda>k. ''2025-06-01T12:00:00.000Z''),
             modifiedNow = (\<lambda>k. ''2025-06-01T12:00:00.002Z''),
             statCtime = (\<lambda>k. ''2025-05-31T00:00:00.000Z''),
             statMtime = (\<lambda>k. ''2025-05-31T00:00:01.000Z'')\<rparr>"

subsection \<open>The graph handed to the store\<close>

text \<open>
  \<open>assembled\<close> is the value of the variable \<^verbatim>\<open>graph\<close> of \<^verbatim>\<open>buildGraph\<close> when the loop over the
  references has ended and \<^verbatim>\<open>new Neo4jGraph(graph.nodes, graph.edges)\<close> is evaluated.
  \<open>reports this g\<close>: the four getters of the object give the nodes of \<open>g\<close> in the order of
  the map, its edges, and their numbers.
\<close>

definition assembled ::
  "clock \<Rightarrow> (string \<Rightarrow> string) \<Rightarrow> string set \<Rightarrow> path list \<Rightarrow> RepoInfo \<Rightarrow> fsnode \<Rightarrow> module_state \<Rightarrow> GraphData" where
  "assembled C H G files info fs ms =
     (let st = snd (extraction C H G info fs files ms)
      in rgraph (resolveReferences H (repoId info) (definitions st) (references st) (graph st)))"

definition reports :: "Neo4jGraph \<Rightarrow> GraphData \<Rightarrow> bool" where
  "reports this g =
     (getNodes this = map snd (nodes g) \<and> getEdges this = edges g \<and>
      numberOfNodes this = length (nodes g) \<and> numberOfEdges this = length (edges g))"

subsection \<open>Two listings of one directory\<close>

text \<open>
  A repository that holds \<^verbatim>\<open>a.ts\<close>, the folder \<^verbatim>\<open>img\<close> with a picture in it, and a dangling
  link, listed by \<^verbatim>\<open>fs.readdirSync\<close> in two orders. The picture is not a text file and the
  scanner does not yield it; \<open>idsAndEdges\<close> shows of a graph its node ids and its edges.
\<close>

definition picturesFirst :: fsnode where
  "picturesFirst =
     FsDir [(''a.ts'', FsFile 20 definer),
            (''img'', FsDir [(''logo.png'', FsFile 900 SyntaxError)]),
            (''dangling'', FsBroken)]"

definition linkFirst :: fsnode where
  "linkFirst =
     FsDir [(''a.ts'', FsFile 20 definer),
            (''dangling'', FsBroken),
            (''img'', FsDir [(''logo.png'', FsFile 900 SyntaxError)])]"

definition idsAndEdges :: "Neo4jGraph option \<Rightarrow> (string list \<times> (string \<times> string \<times> string) list) option" where
  "idsAndEdges r = map_option (\<lambda>g. (map n_nodeId (getNodes g), map edgeTriple (getEdges g))) r"

subsection \<open>A hidden folder below a folder\<close>

text \<open>
  A repository that holds \<^verbatim>\<open>src/a.ts\<close> and \<^verbatim>\<open>src/.cfg/x.ts\<close>. The directory traversal visits
  \<^verbatim>\<open>src\<close> and skips \<^verbatim>\<open>.cfg\<close>; \<open>afterTraversal\<close> is the graph it leaves, in which the loop over
  \<^verbatim>\<open>files\<close> comes to \<^verbatim>\<open>src/.cfg/x.ts\<close> and calls \<^verbatim>\<open>ensureFolderNode\<close> on \<^verbatim>\<open>src/.cfg\<close>.
\<close>

definition hiddenBelowSrc :: fsnode where
  "hiddenBelowSrc =
     FsDir [(''src'', FsDir [(''a.ts'', FsFile 20 definer),
                             (''.cfg'', FsDir [(''x.ts'', FsFile 9 caller)])])]"

definition afterTraversal :: GraphData where
  "afterTraversal =
     graph (snd (processDirectory clock0 (\<lambda>s. s) {''console''} repo [] hiddenBelowSrc
                   (generateNodeId (\<lambda>s. s) (repoId repo) ''repo:root'')
                   (initial_state clock0 (\<lambda>s. s) repo initial_module_state)))"

subsection \<open>Runs under another digest\<close>

text \<open>
  A graph with its ids renamed by \<open>f\<close>. \<open>idsOf g\<close> are the ids in use in \<open>g\<close>: the keys of
  its nodes and the two ends of its edges. \<open>simGraph f g gH\<close>: \<open>gH\<close> is \<open>g\<close> renamed by \<open>f\<close>, but
  for the time stamps; \<open>simState\<close> and \<open>simRes\<close> say so of builder states and of the results
  of a step. \<open>within g g'\<close>: \<open>g'\<close> has every node key and every edge of \<open>g\<close>.

  \<open>runIds\<close> are the strings \<^verbatim>\<open>`${repoId}:${nodePath}`\<close> that the two extraction passes of a
  run hash into the ids of the graph they build: the ids of that graph when the digest is
  the identity. \<open>isAbsolute\<close> is \<^verbatim>\<open>path.isAbsolute\<close>.
\<close>

definition renameNode :: "(string \<Rightarrow> string) \<Rightarrow> GraphNodeData \<Rightarrow> GraphNodeData" where
  "renameNode H n = n\<lparr>n_nodeId := H (n_nodeId n)\<rparr>"

definition renameEdge :: "(string \<Rightarrow> string) \<Rightarrow> GraphEdgeData \<Rightarrow> GraphEdgeData" where
  "renameEdge H e = e\<lparr>e_sourceId := H (e_sourceId e), e_targetId := H (e_targetId e)\<rparr>"

definition renameNodes ::
  "(string \<Rightarrow> string) \<Rightarrow> (string, GraphNodeData) jsmap \<Rightarrow> (string, GraphNodeData) jsmap" where
  "renameNodes H ns = map (\<lambda>kv. (H (fst kv), renameNode H (snd kv))) ns"

definition ends :: "GraphEdgeData list \<Rightarrow> string set" where
  "ends es = e_sourceId ` set es \<union> e_targetId ` set es"

definition idsOf :: "GraphData \<Rightarrow> string set" where
  "idsOf g = set (map fst (nodes g)) \<union> set (map e_sourceId (edges g)) \<union> set (map e_targetId (edges g))"

definition isAbsolute :: "string \<Rightarrow> bool" where
  "isAbsolute p = (p \<noteq> [] \<and> hd p = CHR ''/'')"

definition simGraph :: "(string \<Rightarrow> string) \<Rightarrow> GraphData \<Rightarrow> GraphData \<Rightarrow> bool" where
  "simGraph H g gH =
     (stripNodes (nodes gH) = stripNodes (renameNodes H (nodes g)) \<and>
      edges gH = map (renameEdge H) (edges g))"

definition simState :: "(string \<Rightarrow> string) \<Rightarrow> build_state \<Rightarrow> build_state \<Rightarrow> bool" where
  "simState H st stH =
     (simGraph H (graph st) (graph stH) \<and> definitions stH = definitions st \<and>
      references stH = references st \<and> mtables stH = mtables st)"

definition within :: "GraphData \<Rightarrow> GraphData \<Rightarrow> bool" where
  "within g g' = (grows (nodes g) (nodes g') \<and> set (edges g) \<subseteq> set (edges g'))"

definition runIds ::
  "clock \<Rightarrow> string set \<Rightarrow> RepoInfo \<Rightarrow> fsnode \<Rightarrow> path list \<Rightarrow> module_state \<Rightarrow> string set" where
  "runIds C G info fs files ms = idsOf (graph (snd (extraction C (\<lambda>s. s) G info fs files ms)))"

definition simRes :: "(string \<Rightarrow> string) \<Rightarrow> 'a \<times> build_state \<Rightarrow> 'a \<times> build_state \<Rightarrow> bool" where
  "simRes f a b = (fst b = fst a \<and> simState f (snd a) (snd b))"

section \<open>Properties of the tag extractor\<close>

lemma importResolution_tags: "\<exists>ts. tags (importResolution rp n st) = tags st @ ts"
  by (induction rp n st rule: importResolution.induct)
     (auto simp: Let_def pushTag_def split: option.splits)

lemma filtered_enter: "filteredCallee G n \<Longrightarrow> enter G rp n st = st"
  by (induction G n rule: filteredCallee.induct) (auto simp: Let_def)

lemma shouldIgnore_filtered:
  "emitsReference n \<Longrightarrow> shouldIgnoreFunctionCall G n = filteredCallee G n"
  by (induction G n rule: filteredCallee.induct) auto

lemma unfiltered_enter:
  assumes "emitsReference n" and "\<not> filteredCallee G n"
  shows "\<exists>t ts. tags (enter G rp n st) = tags st @ t # ts \<and> t_kind t = Ref"
proof (cases n)
  case (CallExpression l callee args)
  let ?t = "mkTag (getFunctionName G n) ''functionCall'' Ref rp None n
              (Some (callParent (currentClass st) rp n))"
  from assms have "\<not> shouldIgnoreFunctionCall G n"
    by (simp add: shouldIgnore_filtered)
  then have e: "enter G rp n st = importResolution rp n (pushTag ?t st)"
    using CallExpression by (simp add: Let_def)
  obtain ts where "tags (importResolution rp n (pushTag ?t st)) = tags (pushTag ?t st) @ ts"
    using importResolution_tags by blast
  then have "tags (enter G rp n st) = tags st @ ?t # ts"
    using e by (simp add: pushTag_def)
  moreover have "t_kind ?t = Ref"
    by (simp add: mkTag_def)
  ultimately show ?thesis by blast
next
  case (NewExpression l callee args)
  with assms obtain l' c where c: "callee = Identifier l' c"
    by (cases callee) auto
  from assms have "\<not> shouldIgnoreFunctionCall G n"
    by (simp add: shouldIgnore_filtered)
  then have "tags (enter G rp n st) = tags st @ [mkTag c ''constructorCall'' Ref rp None n None]"
    using NewExpression c by (simp add: Let_def pushTag_def)
  then show ?thesis by (simp add: mkTag_def)
qed (use assms in auto)

text \<open>
  C2, as the code has it. Visiting a node that the filter covers (\<^verbatim>\<open>new Error(...)\<close>, a
  plain call of an identifier in the set of globals, a member call whose object and
  property are both identifiers with one of them in the set) changes nothing: no tag is
  pushed. Visiting any other call expression, or \<^verbatim>\<open>new\<close> of another identifier, pushes a
  reference tag. The statement \<^verbatim>\<open>throw new Error()\<close> as a whole leaves no tag.
\<close>

theorem filter_rule:
  "(filteredCallee G n \<longrightarrow> enter G rp n st = st) \<and>
   (emitsReference n \<and> \<not> filteredCallee G n \<longrightarrow>
      (\<exists>t ts. tags (enter G rp n st) = tags st @ t # ts \<and> t_kind t = Ref)) \<and>
   traverse G rp (ThrowStatement l (NewExpression l' (Identifier l'' ''Error'') [])) st = st"
  using filtered_enter unfiltered_enter by simp

theorem filter_rule_witness:
  "filteredCallee {''console''} consoleLog \<and>
   enter {''console''} ''a.ts'' consoleLog start_state = start_state \<and>
   emitsReference barCall \<and> \<not> filteredCallee {''console''} barCall \<and>
   (\<exists>t ts. tags (enter {''console''} ''a.ts'' barCall start_state) = tags start_state @ t # ts \<and>
            t_kind t = Ref)"
proof -
  have a: "filteredCallee {''console''} consoleLog"
    by (simp add: consoleLog_def)
  have b: "emitsReference barCall \<and> \<not> filteredCallee {''console''} barCall"
    by (simp add: barCall_def)
  from a b filter_rule [of "{''console''}" consoleLog "''a.ts''" start_state]
    filter_rule [of "{''console''}" barCall "''a.ts''" start_state]
  show ?thesis by blast
qed

text \<open>
  C2 as stated fails: in \<^verbatim>\<open>console['log']('x')\<close> the callee's object is named
  \<^verbatim>\<open>console\<close>, a global, so the rule of the specification excludes the call; the code
  tests the filter only when object and property are both identifiers, and the file
  yields one reference tag, of type \<^verbatim>\<open>functionCall\<close> and with the empty name.
\<close>

theorem computed_member_call_is_tagged:
  "shouldIgnoreReference_spec (allGlobals {''console''} {''console''} {}) computedLog \<and>
   map_outcome (map (\<lambda>t. (t_name t, t_type t, t_kind t)))
     (fst (parseFile (allGlobals {''console''} {''console''} {}) initial_module_state
             (Program [Other (line 1) [computedLog]]) ''a.ts'' ''a.ts''))
   = Resolved [([], ''functionCall'', Ref)]"
  by code_simp



text \<open>
  C9 on the code: \<^verbatim>\<open>a.ts\<close> exports \<^verbatim>\<open>helper\<close>, then \<^verbatim>\<open>b.ts\<close> imports it from \<^verbatim>\<open>./a\<close> and
  calls it. Nothing writes \<^verbatim>\<open>EXPORT_MAP\<close>, so after \<^verbatim>\<open>a.ts\<close> it has no entry for \<^verbatim>\<open>./a\<close>,
  the import registers no alias, and the one tag of \<^verbatim>\<open>b.ts\<close> has no \<^verbatim>\<open>targetFile\<close>.
\<close>

theorem import_registers_no_alias:
  "(case parseFile {''console''} initial_module_state exporter ''a.ts'' ''a.ts'' of
      (r1, ms1) \<Rightarrow>
        (case parseFile {''console''} ms1 importer ''b.ts'' ''b.ts'' of
           (r2, ms2) \<Rightarrow>
             (EXPORT_MAP ms1 ''./a'', IMPORT_RESOLVER ms2 ''helper'',
              map_outcome (map (\<lambda>t. (t_name t, t_kind t, t_targetFile t))) r2)))
   = (None, None, Resolved [(''helper'', Ref, None)])"
  by code_simp

section \<open>Properties of Neo4jGraph\<close>

text \<open>
  C10. When \<^verbatim>\<open>buildGraph\<close> resolves with the Neo4jGraph \<open>g\<close>, this is the object that it
  handed to \<^verbatim>\<open>storeGraph\<close>, and that call resolved. The getters of \<open>g\<close> report the graph
  that the extraction and the resolver have assembled: its nodes, its edges and their
  numbers. For every argument, \<^verbatim>\<open>addNode\<close> and \<^verbatim>\<open>addEdge\<close> throw their error and leave the
  object as it was, and its getters afterwards report the same assembled graph.
\<close>

theorem neo4jGraph_read_only:
  assumes "resolvedGraph (buildGraph C H G (Some storeGraph) files info fs ms) = Some g"
  shows "storeGraph g = Resolved () \<and>
         reports g (assembled C H G files info fs ms) \<and>
         addNode g nodeId d = (Inl (Error ''Cannot add nodes to Neo4jGraph - it is read-only''), g) \<and>
         reports (snd (addNode g nodeId d)) (assembled C H G files info fs ms) \<and>
         addEdge g sourceId targetId ed =
           (Inl (Error ''Cannot add edges to Neo4jGraph - it is read-only''), g) \<and>
         reports (snd (addEdge g sourceId targetId ed)) (assembled C H G files info fs ms)"
proof -
  let ?A = "assembled C H G files info fs ms"
  have g: "g = \<lparr>g_nodes = nodes ?A, g_edges = edges ?A\<rparr>" and s: "storeGraph g = Resolved ()"
    using assms
    by (auto simp: resolvedGraph_def buildGraph_def assembled_def Let_def
             split: prod.splits outcome.splits)
  have r: "reports g ?A"
    unfolding g by (simp add: reports_def getNodes_def getEdges_def numberOfNodes_def numberOfEdges_def)
  show ?thesis
    using s r by (simp add: addNode_def addEdge_def)
qed

text \<open>In scenario 2 the assembled graph has five nodes and three edges.\<close>

lemma assembled_example:
  "(let g = assembled clock0 (\<lambda>s. s) {''console''} [[''a.ts''], [''b.ts'']] repo twoFiles
              initial_module_state
    in (length (nodes g), length (edges g))) = (5, 3)"
  by code_simp

theorem neo4jGraph_read_only_witness:
  "\<exists>g. resolvedGraph (buildGraph clock0 (\<lambda>s. s) {''console''} (Some storeOk) [[''a.ts''], [''b.ts'']]
                        repo twoFiles initial_module_state) = Some g \<and>
       storeOk g = Resolved () \<and>
       numberOfNodes g = 5 \<and> numberOfEdges g = 3 \<and>
       reports g (assembled clock0 (\<lambda>s. s) {''console''} [[''a.ts''], [''b.ts'']] repo twoFiles
                    initial_module_state) \<and>
       addNode g ''n'' (refNode ''n'' ''r'' matchingRef) =
         (Inl (Error ''Cannot add nodes to Neo4jGraph - it is read-only''), g) \<and>
       reports (snd (addNode g ''n'' (refNode ''n'' ''r'' matchingRef)))
         (assembled clock0 (\<lambda>s. s) {''console''} [[''a.ts''], [''b.ts'']] repo twoFiles
            initial_module_state) \<and>
       addEdge g ''r:file:b.ts'' ''n'' (mkEdge ''r:file:b.ts'' ''n'' ''CONTAINS'' ''r'') =
         (Inl (Error ''Cannot add edges to Neo4jGraph - it is read-only''), g) \<and>
       reports (snd (addEdge g ''r:file:b.ts'' ''n'' (mkEdge ''r:file:b.ts'' ''n'' ''CONTAINS'' ''r'')))
         (assembled clock0 (\<lambda>s. s) {''console''} [[''a.ts''], [''b.ts'']] repo twoFiles
            initial_module_state)"
proof -
  let ?A = "assembled clock0 (\<lambda>s. s) {''console''} [[''a.ts''], [''b.ts'']] repo twoFiles
              initial_module_state"
  have "resolvedGraph (buildGraph clock0 (\<lambda>s. s) {''console''} (Some storeOk) [[''a.ts''], [''b.ts'']]
                         repo twoFiles initial_module_state) \<noteq> None"
    by code_simp
  then obtain g where g: "resolvedGraph (buildGraph clock0 (\<lambda>s. s) {''console''} (Some storeOk)
                            [[''a.ts''], [''b.ts'']] repo twoFiles initial_module_state) = Some g"
    by blast
  have n: "length (nodes ?A) = 5" "length (edges ?A) = 3"
    using assembled_example by (simp_all add: Let_def)
  note r = neo4jGraph_read_only [OF g]
  from r have "numberOfNodes g = 5" "numberOfEdges g = 3"
    using n by (simp_all add: reports_def)
  with r g show ?thesis by blast
qed

section \<open>Properties of buildGraph on example runs\<close>

lemma containsPath_no_exit:
  assumes "containsPath es a b" and "list_all (\<lambda>e. e_sourceId e \<noteq> a \<or> e_type e \<noteq> ''CONTAINS'') es"
  shows "b = a"
  using assms by (induction rule: containsPath.induct) (auto simp: list_all_iff)

text \<open>
  C7 on the code. A list of files that holds \<^verbatim>\<open>README.md\<close>: the directory traversal skips
  the file, the loop over \<^verbatim>\<open>files\<close> awaits \<^verbatim>\<open>parseFile\<close> on it, and that promise is never
  settled, so \<^verbatim>\<open>buildGraph\<close> never returns. A source file in a hidden directory that does
  not parse: the loop awaits \<^verbatim>\<open>parseFile\<close> outside any \<^verbatim>\<open>try\<close>, and \<^verbatim>\<open>buildGraph\<close> is rejected.
\<close>

theorem files_loop_failure_is_fatal:
  "fst (buildGraph clock0 (\<lambda>s. s) {''console''} (Some storeOk) [[''README.md'']] repo readmeOnly
          initial_module_state) = Pending \<and>
   fst (buildGraph clock0 (\<lambda>s. s) {''console''} (Some storeOk) [[''.config'', ''bad.ts'']] repo
          hiddenBroken initial_module_state) = Rejected"
  by code_simp

text \<open>
  C1 on the code, for scenario 2 and with the identity as digest, so that a node's id is
  the string that is hashed. The call of \<^verbatim>\<open>helper\<close> in \<^verbatim>\<open>b.ts\<close> is buffered with type
  \<^verbatim>\<open>functionCall\<close>, the definition is recorded under \<^verbatim>\<open>helper:function\<close>, the lookup of
  \<^verbatim>\<open>helper:functionCall\<close> finds nothing: the final graph has no reference node and no
  REFERENCES edge.
\<close>

theorem helper_call_is_not_linked:
  "map_option (\<lambda>g. (map n_nodeId (getNodes g), map edgeTriple (getEdges g)))
     (resolvedGraph (buildGraph clock0 (\<lambda>s. s) {''console''} (Some storeOk) [[''a.ts''], [''b.ts'']]
                       repo twoFiles initial_module_state))
   = Some ([''r:repo:root'', ''r:folder:.'', ''r:file:a.ts'', ''r:/repo/a.ts:helper:1'', ''r:file:b.ts''],
           [(''r:folder:.'', ''CONTAINS'', ''r:file:a.ts''),
            (''r:file:a.ts'', ''CONTAINS'', ''r:/repo/a.ts:helper:1''),
            (''r:folder:.'', ''CONTAINS'', ''r:file:b.ts'')])"
  by code_simp

text \<open>
  The resolver alone, on the graph of that run and a reference tag made to match the key
  \<^verbatim>\<open>helper:function\<close>: it looks the definition's node up under the id of
  \<^verbatim>\<open>def:a.ts:helper:1\<close>, where extraction stored it under the id of
  \<^verbatim>\<open>/repo/a.ts:helper:1\<close>; it creates the reference node, counts a missing node and adds
  no REFERENCES edge.
\<close>

lemma resolver_misses_definition_node:
  "(let rs = resolveReferences (\<lambda>s. s) ''r'' [''helper:function'' \<mapsto> helperDef] [matchingRef]
               \<lparr>nodes = [(''r:file:a.ts'', fileNode ''r:file:a.ts'' ''r'' ''a.ts'' ''a.ts'' [] []),
                         (''r:/repo/a.ts:helper:1'', defNode ''r:/repo/a.ts:helper:1'' ''r'' ''a.ts'' helperDef),
                         (''r:file:b.ts'', fileNode ''r:file:b.ts'' ''r'' ''b.ts'' ''b.ts'' [] [])],
                edges = [mkEdge ''r:file:a.ts'' ''r:/repo/a.ts:helper:1'' ''CONTAINS'' ''r'']\<rparr>
    in (map fst (nodes (rgraph rs)), map edgeTriple (edges (rgraph rs)),
        resolvedCount rs, missingDefinitions rs, missingNodes rs))
   = ([''r:file:a.ts'', ''r:/repo/a.ts:helper:1'', ''r:file:b.ts'', ''r:ref:b.ts:helper:1''],
      [(''r:file:a.ts'', ''CONTAINS'', ''r:/repo/a.ts:helper:1''),
       (''r:file:b.ts'', ''CONTAINS'', ''r:ref:b.ts:helper:1'')],
      0, 0, 1)"
  by code_simp

text \<open>
  C5 on the code, for the same run. The traversal of the repository directory creates a
  second REPOSITORY node under the id of \<^verbatim>\<open>folder:.\<close> and hangs the files below it; no
  edge leaves the root node \<^verbatim>\<open>repo:root\<close>, and the file node of \<^verbatim>\<open>a.ts\<close> is not reached
  from it.
\<close>

theorem file_not_reachable_from_root:
  "\<exists>g. resolvedGraph (buildGraph clock0 (\<lambda>s. s) {''console''} (Some storeOk) [[''a.ts''], [''b.ts'']]
                        repo twoFiles initial_module_state) = Some g \<and>
       generateNodeId (\<lambda>s. s) ''r'' ''file:a.ts'' \<in> set (map n_nodeId (getNodes g)) \<and>
       \<not> containsPath (getEdges g) (generateNodeId (\<lambda>s. s) ''r'' ''repo:root'')
            (generateNodeId (\<lambda>s. s) ''r'' ''file:a.ts'')"
proof -
  let ?res = "resolvedGraph (buildGraph clock0 (\<lambda>s. s) {''console''} (Some storeOk)
                [[''a.ts''], [''b.ts'']] repo twoFiles initial_module_state)"
  have some: "?res \<noteq> None"
    by code_simp
  then obtain g where g: "?res = Some g"
    by blast
  have "(case ?res of None \<Rightarrow> False
         | Some g \<Rightarrow> generateNodeId (\<lambda>s. s) ''r'' ''file:a.ts'' \<in> set (map n_nodeId (getNodes g)) \<and>
             list_all (\<lambda>e. e_sourceId e \<noteq> generateNodeId (\<lambda>s. s) ''r'' ''repo:root'' \<or>
                            e_type e \<noteq> ''CONTAINS'') (getEdges g))"
    by code_simp
  with g have n: "generateNodeId (\<lambda>s. s) ''r'' ''file:a.ts'' \<in> set (map n_nodeId (getNodes g))"
    and noexit: "list_all (\<lambda>e. e_sourceId e \<noteq> generateNodeId (\<lambda>s. s) ''r'' ''repo:root'' \<or>
                          e_type e \<noteq> ''CONTAINS'') (getEdges g)"
    by simp_all
  have "generateNodeId (\<lambda>s. s) ''r'' ''file:a.ts'' \<noteq> generateNodeId (\<lambda>s. s) ''r'' ''repo:root''"
    by (simp add: generateNodeId_def)
  with containsPath_no_exit [OF _ noexit] have
    "\<not> containsPath (getEdges g) (generateNodeId (\<lambda>s. s) ''r'' ''repo:root'')
         (generateNodeId (\<lambda>s. s) ''r'' ''file:a.ts'')"
    by blast
  with g n show ?thesis by blast
qed

text \<open>
  C6 on the code, for a repository that holds \<^verbatim>\<open>src/a.ts\<close> and \<^verbatim>\<open>src/.cfg/x.ts\<close>. The
  directory traversal has created the node of \<^verbatim>\<open>src\<close> and linked it below its own
  REPOSITORY node \<^verbatim>\<open>folder:.\<close>. For \<^verbatim>\<open>src/.cfg/x.ts\<close> the loop over \<^verbatim>\<open>files\<close> calls
  \<^verbatim>\<open>ensureFolderNode\<close> on \<^verbatim>\<open>src/.cfg\<close>: it creates that folder's node, finds the node of
  \<^verbatim>\<open>src\<close> and returns, and links the two. A second call changes nothing. The ancestors
  of \<^verbatim>\<open>src/.cfg\<close> are then not connected up to the root node \<^verbatim>\<open>repo:root\<close>, where
  \<^verbatim>\<open>ensureFolderNode\<close> ends for \<^verbatim>\<open>.\<close>: no edge leaves that node, in this graph and in the
  graph that \<^verbatim>\<open>buildGraph\<close> resolves with.
\<close>

theorem folder_chain_misses_root:
  "(let res = ensureFolderNode clock0 (\<lambda>s. s) afterTraversal ''r'' [''src'', ''.cfg'']; g = snd res in
      has (nodes afterTraversal) ''r:folder:src'' \<and>
      fst res = ''r:folder:src/.cfg'' \<and>
      ensureFolderNode clock0 (\<lambda>s. s) g ''r'' [''src'', ''.cfg''] = res \<and>
      map fst (nodes g) =
        [''r:repo:root'', ''r:folder:.'', ''r:folder:src'', ''r:file:src/a.ts'',
         ''r:/repo/src/a.ts:helper:1'', ''r:folder:src/.cfg''] \<and>
      map edgeTriple (edges g) =
        [(''r:folder:.'', ''CONTAINS'', ''r:folder:src''),
         (''r:folder:src'', ''CONTAINS'', ''r:file:src/a.ts''),
         (''r:file:src/a.ts'', ''CONTAINS'', ''r:/repo/src/a.ts:helper:1''),
         (''r:folder:src'', ''CONTAINS'', ''r:folder:src/.cfg'')] \<and>
      \<not> connected (\<lambda>s. s) ''r'' g [''src'', ''.cfg'']) \<and>
   idsAndEdges (resolvedGraph (buildGraph clock0 (\<lambda>s. s) {''console''} (Some storeOk)
                                 [[''src'', ''a.ts''], [''src'', ''.cfg'', ''x.ts'']]
                                 repo hiddenBelowSrc initial_module_state)) =
     Some ([''r:repo:root'', ''r:folder:.'', ''r:folder:src'', ''r:file:src/a.ts'',
            ''r:/repo/src/a.ts:helper:1'', ''r:folder:src/.cfg'', ''r:file:src/.cfg/x.ts''],
           [(''r:folder:.'', ''CONTAINS'', ''r:folder:src''),
            (''r:folder:src'', ''CONTAINS'', ''r:file:src/a.ts''),
            (''r:file:src/a.ts'', ''CONTAINS'', ''r:/repo/src/a.ts:helper:1''),
            (''r:folder:src'', ''CONTAINS'', ''r:folder:src/.cfg''),
            (''r:folder:src/.cfg'', ''CONTAINS'', ''r:file:src/.cfg/x.ts'')])"
  by code_simp

section \<open>Properties of ensureFolderNode\<close>

lemma map_of_mapSet: "map_of (mapSet k v m) = (map_of m)(k \<mapsto> v)"
  by (induction m) (auto simp: fun_eq_iff)

lemma has_mapSet [simp]: "has (mapSet k v m) k' = (k' = k \<or> has m k')"
  by (simp add: has_def map_of_mapSet)

lemma keys_mapSet: "map fst (mapSet k v m) = (if has m k then map fst m else map fst m @ [k])"
  by (induction m) (auto simp: has_def)

lemma distinct_mapSet: "distinct (map fst m) \<Longrightarrow> distinct (map fst (mapSet k v m))"
  by (auto simp: keys_mapSet has_def map_of_eq_None_iff)

lemma has_keys: "has m k = (k \<in> set (map fst m))"
  by (auto simp: has_def map_of_eq_None_iff)

lemma addUniqueEdge_set:
  "set (snd (addUniqueEdge es s t ty r)) \<subseteq> insert (mkEdge s t ty r) (set es)"
  "set es \<subseteq> set (snd (addUniqueEdge es s t ty r))"
  by (auto simp: addUniqueEdge_def Let_def)

lemma mkEdge_fields:
  "e_sourceId e = s \<Longrightarrow> e_targetId e = t \<Longrightarrow> e_type e = ty \<Longrightarrow> e_repoId e = Some r \<Longrightarrow>
   mkEdge s t ty r = e"
  by (cases e) (simp add: mkEdge_def)

lemma mkEdge_sel [simp]:
  "e_sourceId (mkEdge s t ty r) = s" "e_targetId (mkEdge s t ty r) = t"
  "e_type (mkEdge s t ty r) = ty" "e_repoId (mkEdge s t ty r) = Some r"
  by (simp_all add: mkEdge_def)

lemma exact_match_iff:
  "list_ex (\<lambda>e. e_sourceId e = s \<and> e_targetId e = t \<and> e_type e = ty \<and> e_repoId e = Some r) es
   = (mkEdge s t ty r \<in> set es)"
proof
  assume "list_ex (\<lambda>e. e_sourceId e = s \<and> e_targetId e = t \<and> e_type e = ty \<and> e_repoId e = Some r) es"
  then obtain e where "e \<in> set es" "e_sourceId e = s" "e_targetId e = t" "e_type e = ty" "e_repoId e = Some r"
    by (auto simp: list_ex_iff)
  then show "mkEdge s t ty r \<in> set es" using mkEdge_fields by metis
next
  assume "mkEdge s t ty r \<in> set es"
  then show "list_ex (\<lambda>e. e_sourceId e = s \<and> e_targetId e = t \<and> e_type e = ty \<and> e_repoId e = Some r) es"
    unfolding list_ex_iff by (intro bexI[of _ "mkEdge s t ty r"]) simp_all
qed

lemma addUniqueEdge_distinct: "distinct es \<Longrightarrow> distinct (snd (addUniqueEdge es s t ty r))"
  by (auto simp: addUniqueEdge_def Let_def exact_match_iff)

lemma addUniqueEdge_adds:
  "list_all (\<lambda>e. e_sourceId e \<noteq> t) es \<Longrightarrow> mkEdge s t ty r \<in> set (snd (addUniqueEdge es s t ty r))"
  by (auto simp: addUniqueEdge_def Let_def exact_match_iff list_ex_iff list_all_iff)

lemma ensure_fst: "fst (ensureFolderNode C H g r p) = folderRef H r p"
  by (subst ensureFolderNode.simps)
     (auto simp: folderRef_def rootId_def folderId_def Let_def split: prod.splits)

lemma ensure_has: "has (nodes g) k \<Longrightarrow> has (nodes (snd (ensureFolderNode C H g r p))) k"
proof (induction C H g r p rule: ensureFolderNode.induct)
  case (1 C H g r p)
  show ?case
  proof (cases "relString p = ''.'' \<or> has (nodes g) (generateNodeId H r (''folder:'' @ relString p))")
    case True
    then show ?thesis using 1(2) by (subst ensureFolderNode.simps) (auto simp: Let_def)
  next
    case False
    let ?id = "generateNodeId H r (''folder:'' @ relString p)"
    let ?g1 = "g\<lparr>nodes := mapSet ?id (folderNode C ?id r p) (nodes g)\<rparr>"
    have "has (nodes (snd (ensureFolderNode C H ?g1 r (butlast p)))) k"
      using False 1(2) by (intro 1(1)) auto
    then show ?thesis using False
      by (subst ensureFolderNode.simps) (auto simp: Let_def split: prod.splits)
  qed
qed


lemma ensure_base:
  "relString p = ''.'' \<or> has (nodes g) (folderId H r p) \<Longrightarrow> snd (ensureFolderNode C H g r p) = g"
  by (subst ensureFolderNode.simps) (auto simp: folderId_def Let_def)

lemma ensure_step:
  assumes "relString p \<noteq> ''.''" and "\<not> has (nodes g) (folderId H r p)"
  shows "snd (ensureFolderNode C H g r p) =
         (let g2 = snd (ensureFolderNode C H
                     (g\<lparr>nodes := mapSet (folderId H r p) (folderNode C (folderId H r p) r p) (nodes g)\<rparr>)
                     r (butlast p))
          in g2\<lparr>edges := snd (addUniqueEdge (edges g2) (folderRef H r (butlast p)) (folderId H r p)
                                ''CONTAINS'' r)\<rparr>)"
  unfolding ensureFolderNode.simps [of C H g r p]
  using assms by (simp add: folderId_def Let_def case_prod_beta ensure_fst)

lemma folderRef_in_chain: "folderRef H r q \<in> set (chainIds H r q)"
  by (subst chainIds.simps) (simp add: folderRef_def)

lemma chain_tail: "relString q \<noteq> ''.'' \<Longrightarrow> chainIds H r q = folderId H r q # chainIds H r (butlast q)"
  by (subst chainIds.simps) simp

lemma ensure_edges_mono: "set (edges g) \<subseteq> set (edges (snd (ensureFolderNode C H g r p)))"
proof (induction C H g r p rule: ensureFolderNode.induct)
  case (1 C H g r p)
  show ?case
  proof (cases "relString p = ''.'' \<or> has (nodes g) (folderId H r p)")
    case True
    then show ?thesis by (simp add: ensure_base)
  next
    case False
    let ?g1 = "g\<lparr>nodes := mapSet (folderId H r p) (folderNode C (folderId H r p) r p) (nodes g)\<rparr>"
    let ?g2 = "snd (ensureFolderNode C H ?g1 r (butlast p))"
    have "set (edges ?g1) \<subseteq> set (edges ?g2)"
      using False by (intro 1) (auto simp: folderId_def)
    moreover have "set (edges ?g2) \<subseteq> set (snd (addUniqueEdge (edges ?g2) (folderRef H r (butlast p))
                                                (folderId H r p) ''CONTAINS'' r))"
      by (rule addUniqueEdge_set(2))
    ultimately show ?thesis using False
      by (auto simp: ensure_step Let_def)
  qed
qed

lemma ensure_edges_frame:
  "e \<in> set (edges (snd (ensureFolderNode C H g r p))) \<Longrightarrow>
   e \<in> set (edges g) \<or> (relString p \<noteq> ''.'' \<and> e_sourceId e \<in> set (chainIds H r (butlast p)))"
proof (induction C H g r p rule: ensureFolderNode.induct)
  case (1 C H g r p)
  show ?case
  proof (cases "relString p = ''.'' \<or> has (nodes g) (folderId H r p)")
    case True
    then show ?thesis using 1(2) by (simp add: ensure_base)
  next
    case False
    let ?g1 = "g\<lparr>nodes := mapSet (folderId H r p) (folderNode C (folderId H r p) r p) (nodes g)\<rparr>"
    let ?g2 = "snd (ensureFolderNode C H ?g1 r (butlast p))"
    from 1(2) False have "e \<in> set (snd (addUniqueEdge (edges ?g2) (folderRef H r (butlast p))
                                         (folderId H r p) ''CONTAINS'' r))"
      by (simp add: ensure_step Let_def)
    then consider "e = mkEdge (folderRef H r (butlast p)) (folderId H r p) ''CONTAINS'' r"
      | "e \<in> set (edges ?g2)"
      using addUniqueEdge_set(1) by blast
    then show ?thesis
    proof cases
      case 1
      then show ?thesis using False folderRef_in_chain by simp
    next
      case 2
      then have "e \<in> set (edges ?g1) \<or>
                 (relString (butlast p) \<noteq> ''.'' \<and> e_sourceId e \<in> set (chainIds H r (butlast (butlast p))))"
        using False by (intro "1.IH") (auto simp: folderId_def)
      then show ?thesis using False by (auto simp: chain_tail)
    qed
  qed
qed

lemma connected_mono:
  "connected H r g p \<Longrightarrow> (\<And>k. has (nodes g) k \<Longrightarrow> has (nodes g') k) \<Longrightarrow>
   set (edges g) \<subseteq> set (edges g') \<Longrightarrow> connected H r g' p"
proof (induction H r g p rule: connected.induct)
  case (1 H r g p)
  show ?case
  proof (cases "relString p = ''.''")
    case True
    then show ?thesis by (subst connected.simps) simp
  next
    case False
    from "1.prems"(1) False have c: "has (nodes g) (folderId H r p)"
      "mkEdge (folderRef H r (butlast p)) (folderId H r p) ''CONTAINS'' r \<in> set (edges g)"
      "connected H r g (butlast p)"
      by (subst (asm) connected.simps, simp)+
    have "connected H r g' (butlast p)"
      using False c(3) "1.prems"(2,3) by (intro "1.IH") auto
    then show ?thesis using False c "1.prems"(2,3)
      by (subst connected.simps) auto
  qed
qed

lemma ready_add_node:
  "ready H r g q \<Longrightarrow> k \<notin> set (chainIds H r q) \<Longrightarrow> ready H r (g\<lparr>nodes := mapSet k v (nodes g)\<rparr>) q"
proof (induction H r g q rule: ready.induct)
  case (1 H r g p)
  let ?g' = "g\<lparr>nodes := mapSet k v (nodes g)\<rparr>"
  show ?case
  proof (cases "relString p = ''.''")
    case True
    then show ?thesis by (subst ready.simps) simp
  next
    case False
    from "1.prems"(2) False have k: "k \<noteq> folderId H r p" "k \<notin> set (chainIds H r (butlast p))"
      by (auto simp: chain_tail)
    show ?thesis
    proof (cases "has (nodes g) (folderId H r p)")
      case True
      with "1.prems"(1) False have "connected H r g p"
        by (subst (asm) ready.simps) simp
      then have "connected H r ?g' p"
        by (rule connected_mono) auto
      then show ?thesis using False True by (subst ready.simps) simp
    next
      case nh: False
      with "1.prems"(1) False have "ready H r g (butlast p)"
        by (subst (asm) ready.simps) simp
      then have "ready H r ?g' (butlast p)"
        using False nh k by (intro "1.IH") auto
      then show ?thesis using False nh k by (subst ready.simps) simp
    qed
  qed
qed

lemma ensure_has_self:
  "relString p \<noteq> ''.'' \<Longrightarrow> has (nodes (snd (ensureFolderNode C H g r p))) (folderId H r p)"
proof (cases "has (nodes g) (folderId H r p)")
  case True
  then show ?thesis by (simp add: ensure_base)
next
  case False
  assume "relString p \<noteq> ''.''"
  then show ?thesis using False
    by (simp add: ensure_step Let_def ensure_has)
qed

lemma ensure_connected:
  "sourcesExist g \<Longrightarrow> distinct (chainIds H r p) \<Longrightarrow> ready H r g p \<Longrightarrow>
   connected H r (snd (ensureFolderNode C H g r p)) p"
proof (induction C H g r p rule: ensureFolderNode.induct)
  case (1 C H g r p)
  show ?case
  proof (cases "relString p = ''.''")
    case True
    then show ?thesis by (subst connected.simps) simp
  next
    case False
    show ?thesis
    proof (cases "has (nodes g) (folderId H r p)")
      case True
      with "1.prems"(3) False have "connected H r g p"
        by (subst (asm) ready.simps) simp
      then show ?thesis using True by (simp add: ensure_base)
    next
      case nh: False
      let ?id = "folderId H r p"
      let ?g1 = "g\<lparr>nodes := mapSet ?id (folderNode C ?id r p) (nodes g)\<rparr>"
      let ?g2 = "snd (ensureFolderNode C H ?g1 r (butlast p))"
      let ?g3 = "?g2\<lparr>edges := snd (addUniqueEdge (edges ?g2) (folderRef H r (butlast p)) ?id ''CONTAINS'' r)\<rparr>"
      have g3: "snd (ensureFolderNode C H g r p) = ?g3"
        using False nh by (simp add: ensure_step Let_def)
      from "1.prems"(2) False have d: "?id \<notin> set (chainIds H r (butlast p))"
        "distinct (chainIds H r (butlast p))"
        by (auto simp: chain_tail)
      from "1.prems"(3) False nh have "ready H r g (butlast p)"
        by (subst (asm) ready.simps) simp
      then have r1: "ready H r ?g1 (butlast p)"
        using d(1) by (rule ready_add_node)
      have s1: "sourcesExist ?g1"
        using "1.prems"(1) by (auto simp: sourcesExist_def list_all_iff)
      have c2: "connected H r ?g2 (butlast p)"
        using False nh s1 d(2) r1 by (intro "1.IH") (auto simp: folderId_def)
      have nosrc: "list_all (\<lambda>e. e_sourceId e \<noteq> ?id) (edges ?g2)"
        unfolding list_all_iff
      proof
        fix e assume "e \<in> set (edges ?g2)"
        then consider "e \<in> set (edges ?g1)"
          | "e_sourceId e \<in> set (chainIds H r (butlast (butlast p)))" "relString (butlast p) \<noteq> ''.''"
          using ensure_edges_frame by blast
        then show "e_sourceId e \<noteq> ?id"
        proof cases
          case 1
          then have "has (nodes g) (e_sourceId e)"
            using "1.prems"(1) by (auto simp: sourcesExist_def list_all_iff)
          then show ?thesis using nh by auto
        next
          case 2
          then have "e_sourceId e \<in> set (chainIds H r (butlast p))"
            by (simp add: chain_tail)
          then show ?thesis using d(1) by auto
        qed
      qed
      have e3: "mkEdge (folderRef H r (butlast p)) ?id ''CONTAINS'' r \<in> set (edges ?g3)"
        using addUniqueEdge_adds [OF nosrc] by simp
      have h3: "has (nodes ?g3) ?id"
        by (simp add: ensure_has)
      have "connected H r ?g3 (butlast p)"
        using c2 by (rule connected_mono) (auto intro: subsetD [OF addUniqueEdge_set(2)])
      then have "connected H r ?g3 p"
        using False e3 h3 by (subst connected.simps) simp
      then show ?thesis by (simp only: g3)
    qed
  qed
qed

lemma ensure_idempotent:
  "ensureFolderNode C' H (snd (ensureFolderNode C H g r p)) r p = ensureFolderNode C H g r p"
proof -
  let ?g' = "snd (ensureFolderNode C H g r p)"
  have "relString p = ''.'' \<or> has (nodes ?g') (folderId H r p)"
    using ensure_has_self by blast
  then have "snd (ensureFolderNode C' H ?g' r p) = ?g'"
    by (rule ensure_base)
  moreover have "fst (ensureFolderNode C' H ?g' r p) = fst (ensureFolderNode C H g r p)"
    by (simp add: ensure_fst)
  ultimately show ?thesis by (simp add: prod_eq_iff)
qed

lemma ensure_distinct_keys:
  "distinct (map fst (nodes g)) \<Longrightarrow> distinct (map fst (nodes (snd (ensureFolderNode C H g r p))))"
proof (induction C H g r p rule: ensureFolderNode.induct)
  case (1 C H g r p)
  show ?case
  proof (cases "relString p = ''.'' \<or> has (nodes g) (folderId H r p)")
    case True
    then show ?thesis using 1(2) by (simp add: ensure_base)
  next
    case False
    let ?g1 = "g\<lparr>nodes := mapSet (folderId H r p) (folderNode C (folderId H r p) r p) (nodes g)\<rparr>"
    have "distinct (map fst (nodes (snd (ensureFolderNode C H ?g1 r (butlast p)))))"
      using False 1(2) by (intro 1(1)) (auto simp: folderId_def distinct_mapSet)
    then show ?thesis using False by (simp add: ensure_step Let_def)
  qed
qed

lemma ensure_distinct_edges:
  "distinct (edges g) \<Longrightarrow> distinct (edges (snd (ensureFolderNode C H g r p)))"
proof (induction C H g r p rule: ensureFolderNode.induct)
  case (1 C H g r p)
  show ?case
  proof (cases "relString p = ''.'' \<or> has (nodes g) (folderId H r p)")
    case True
    then show ?thesis using 1(2) by (simp add: ensure_base)
  next
    case False
    let ?g1 = "g\<lparr>nodes := mapSet (folderId H r p) (folderNode C (folderId H r p) r p) (nodes g)\<rparr>"
    have "distinct (edges (snd (ensureFolderNode C H ?g1 r (butlast p))))"
      using False 1(2) by (intro 1(1)) (auto simp: folderId_def)
    then show ?thesis using False by (simp add: ensure_step Let_def addUniqueEdge_distinct)
  qed
qed

lemma count_one: "distinct xs \<Longrightarrow> x \<in> set xs \<Longrightarrow> length (filter (\<lambda>y. y = x) xs) = 1"
  by (induction xs) (auto simp: filter_empty_conv)

lemma key_count_one:
  "distinct (map fst m) \<Longrightarrow> has m k \<Longrightarrow> length (filter (\<lambda>kv. fst kv = k) m) = 1"
proof -
  assume d: "distinct (map fst m)" and h: "has m k"
  have "length (filter (\<lambda>kv. fst kv = k) m) = length (filter (\<lambda>y. y = k) (map fst m))"
    by (induction m) auto
  also have "\<dots> = 1" using d h by (intro count_one) (auto simp: has_keys)
  finally show ?thesis .
qed

text \<open>
  What \<^verbatim>\<open>ensureFolderNode\<close> does on any graph. Called on \<open>p\<close>, it returns the id of \<open>p\<close>
  (the root's id for \<^verbatim>\<open>.\<close>), and a
  second call returns the same id and changes nothing. When the node keys of \<open>g\<close> are
  without duplicates, there is afterwards exactly one node under that id. When the edges
  of \<open>g\<close> start at nodes of \<open>g\<close>, the nearest ancestor of \<open>p\<close> that has a node in \<open>g\<close> is
  connected to the root, and the ids of \<open>p\<close>, its ancestors and the root are pairwise
  different, then afterwards \<open>p\<close> and every ancestor has a node and a CONTAINS edge from its
  parent's node, up to the root; and when moreover the edges of \<open>g\<close> are without
  duplicates, there is exactly one such edge into the node of \<open>p\<close>.
\<close>

theorem ensureFolderNode_contract:
  "(let res = ensureFolderNode C H g r p; nodeId = fst res; g' = snd res in
      ensureFolderNode C' H g' r p = (nodeId, g') \<and>
      nodeId = folderRef H r p \<and>
      (relString p = ''.'' \<longrightarrow> g' = g) \<and>
      (relString p \<noteq> ''.'' \<and> distinct (map fst (nodes g)) \<longrightarrow>
         length (filter (\<lambda>kv. fst kv = nodeId) (nodes g')) = 1) \<and>
      (sourcesExist g \<and> distinct (chainIds H r p) \<and> ready H r g p \<longrightarrow>
         connected H r g' p \<and>
         (relString p \<noteq> ''.'' \<and> distinct (edges g) \<longrightarrow>
            length (filter (\<lambda>e. e = mkEdge (folderRef H r (butlast p)) nodeId ''CONTAINS'' r)
                      (edges g')) = 1)))"
proof -
  let ?g' = "snd (ensureFolderNode C H g r p)"
  have i: "ensureFolderNode C' H ?g' r p = (fst (ensureFolderNode C H g r p), ?g')"
    by (simp add: ensure_idempotent)
  have f: "fst (ensureFolderNode C H g r p) = folderRef H r p"
    by (rule ensure_fst)
  have f': "relString p \<noteq> ''.'' \<Longrightarrow> folderRef H r p = folderId H r p"
    by (simp add: folderRef_def)
  have b: "relString p = ''.'' \<Longrightarrow> ?g' = g"
    by (simp add: ensure_base)
  have n: "relString p \<noteq> ''.'' \<Longrightarrow> distinct (map fst (nodes g)) \<Longrightarrow>
           length (filter (\<lambda>kv. fst kv = folderRef H r p) (nodes ?g')) = 1"
    unfolding f' by (intro key_count_one ensure_distinct_keys ensure_has_self)
  have c: "sourcesExist g \<Longrightarrow> distinct (chainIds H r p) \<Longrightarrow> ready H r g p \<Longrightarrow> connected H r ?g' p"
    by (rule ensure_connected)
  have e: "length (filter (\<lambda>e. e = mkEdge (folderRef H r (butlast p)) (folderRef H r p) ''CONTAINS'' r)
                     (edges ?g')) = 1"
    if np: "relString p \<noteq> ''.''" and d: "distinct (edges g)" and cn: "connected H r ?g' p"
  proof -
    from cn np have "mkEdge (folderRef H r (butlast p)) (folderId H r p) ''CONTAINS'' r \<in> set (edges ?g')"
      by (subst (asm) connected.simps) simp
    then show ?thesis using d np
      unfolding f' [OF np] by (intro count_one ensure_distinct_edges)
  qed
  show ?thesis
    unfolding Let_def using i f b n c e by simp
qed

theorem ensureFolderNode_contract_witness:
  "sourcesExist graph0 \<and> distinct (chainIds (\<lambda>s. s) ''r'' [''src'', ''lib'']) \<and>
   ready (\<lambda>s. s) ''r'' graph0 [''src'', ''lib''] \<and>
   distinct (map fst (nodes graph0)) \<and> distinct (edges graph0) \<and>
   relString [''src'', ''lib''] \<noteq> ''.'' \<and>
   (let res = ensureFolderNode clock0 (\<lambda>s. s) graph0 ''r'' [''src'', ''lib''];
        nodeId = fst res; g' = snd res in
      ensureFolderNode clock0 (\<lambda>s. s) g' ''r'' [''src'', ''lib''] = (nodeId, g') \<and>
      nodeId = folderRef (\<lambda>s. s) ''r'' [''src'', ''lib''] \<and>
      length (filter (\<lambda>kv. fst kv = nodeId) (nodes g')) = 1 \<and>
      connected (\<lambda>s. s) ''r'' g' [''src'', ''lib''] \<and>
      length (filter (\<lambda>e. e = mkEdge (folderRef (\<lambda>s. s) ''r'' (butlast [''src'', ''lib'']))
                                nodeId ''CONTAINS'' ''r'') (edges g')) = 1)"
proof -
  have h1: "sourcesExist graph0" by code_simp
  have h2: "distinct (chainIds (\<lambda>s. s) ''r'' [''src'', ''lib''])" by code_simp
  have h3: "ready (\<lambda>s. s) ''r'' graph0 [''src'', ''lib'']" by code_simp
  have h4: "distinct (map fst (nodes graph0))" by code_simp
  have h5: "distinct (edges graph0)" by code_simp
  have h6: "relString [''src'', ''lib''] \<noteq> ''.''" by code_simp
  from h1 h2 h3 h4 h5 h6
    ensureFolderNode_contract [of clock0 "\<lambda>s. s" graph0 "''r''" "[''src'', ''lib'']" clock0]
  show ?thesis unfolding Let_def by blast
qed

text \<open>Scenario 3 of the specification: the folders of \<^verbatim>\<open>src/lib/util.ts\<close>, from the
  initial graph and with the identity as digest.\<close>

lemma nested_folders_example:
  "(let g = snd (ensureFolderNode clock0 (\<lambda>s. s) graph0 ''r'' [''src'', ''lib''])
    in (map fst (nodes g), map edgeTriple (edges g)))
   = ([''r:repo:root'', ''r:folder:src/lib'', ''r:folder:src''],
      [(''r:repo:root'', ''CONTAINS'', ''r:folder:src''),
       (''r:folder:src'', ''CONTAINS'', ''r:folder:src/lib'')])"
  by code_simp

section \<open>The edge invariant of buildGraph\<close>

lemma grows_refl [simp]: "grows ns ns"
  by (simp add: grows_def)

lemma grows_trans: "grows a b \<Longrightarrow> grows b c \<Longrightarrow> grows a c"
  by (simp add: grows_def)

lemma grows_mapSet [simp]: "grows ns (mapSet k v ns)"
  by (simp add: grows_def)

lemma growsD: "grows ns ns' \<Longrightarrow> has ns k \<Longrightarrow> has ns' k"
  by (simp add: grows_def)

lemma ginv_grow: "ginv H r ns es \<Longrightarrow> grows ns ns' \<Longrightarrow> ginv H r ns' es"
  by (auto simp: ginv_def grows_def)

lemma ginv_setNode: "ginv H r ns es \<Longrightarrow> ginv H r (mapSet k v ns) es"
  by (auto simp: ginv_def)

lemma containsBetween_append:
  "containsBetween (es @ [e]) a b = containsBetween es a b @ containsBetween [e] a b"
  by (simp add: containsBetween_def)

lemma ginv_push:
  assumes "ginv H r ns es" and "has ns s" and "containerId H r s"
    and "containsBetween es s t = []"
  shows "ginv H r ns (es @ [mkEdge s t ''CONTAINS'' r])"
proof -
  have "length (containsBetween (es @ [mkEdge s t ''CONTAINS'' r]) a b) \<le> 1" for a b
  proof (cases "containsBetween [mkEdge s t ''CONTAINS'' r] a b = []")
    case True
    then show ?thesis using assms(1) by (simp add: containsBetween_append ginv_def)
  next
    case False
    then have "(s = a \<and> t = b) \<or> (s = b \<and> t = a)"
      by (auto simp: containsBetween_def split: if_splits)
    then have "containsBetween es a b = containsBetween es s t"
      by (auto simp: containsBetween_def intro: filter_cong)
    then show ?thesis using assms(4)
      by (simp add: containsBetween_append containsBetween_def)
  qed
  then show ?thesis using assms(1-3) by (auto simp: ginv_def)
qed

lemma ginv_push_other:
  assumes "ginv H r ns es" and "has ns s" and "ty \<noteq> ''CONTAINS''"
  shows "ginv H r ns (es @ [mkEdge s t ty r])"
  using assms by (auto simp: ginv_def containsBetween_def)

lemma ginv_addUnique:
  assumes "ginv H r ns es" and "has ns s" and "ty = ''CONTAINS'' \<longrightarrow> containerId H r s"
  shows "ginv H r ns (snd (addUniqueEdge es s t ty r))"
proof (cases "fst (addUniqueEdge es s t ty r)")
  case False
  then have "snd (addUniqueEdge es s t ty r) = es"
    by (auto simp: addUniqueEdge_def Let_def split: if_splits)
  then show ?thesis using assms(1) by simp
next
  case True
  then have added: "snd (addUniqueEdge es s t ty r) = es @ [mkEdge s t ty r]"
    and noexact: "\<not> list_ex (\<lambda>e. e_sourceId e = s \<and> e_targetId e = t \<and> e_type e = ty \<and> e_repoId e = Some r) es"
    and norev: "ty = ''CONTAINS'' \<longrightarrow> \<not> list_ex (\<lambda>e. e_sourceId e = t \<and> e_targetId e = s \<and> e_type e = ty \<and> e_repoId e = Some r) es"
    by (auto simp: addUniqueEdge_def Let_def split: if_splits)
  show ?thesis
  proof (cases "ty = ''CONTAINS''")
    case False
    then show ?thesis using assms added by (simp add: ginv_push_other)
  next
    case c: True
    have "containsBetween es s t = []"
      using noexact norev c assms(1)
      by (auto simp: containsBetween_def filter_empty_conv list_ex_iff ginv_def)
    then show ?thesis using assms added c by (simp add: ginv_push)
  qed
qed

lemma edgeExists_exact:
  "ginv H r ns es \<Longrightarrow> edgeExists es s t ty r =
     list_ex (\<lambda>e. e_sourceId e = s \<and> e_targetId e = t \<and> e_type e = ty) es"
  by (auto simp: edgeExists_def list_ex_iff ginv_def)

lemma ginv_guarded_push:
  assumes "ginv H r ns es" and "has ns s" and "containerId H r s"
    and "\<not> edgeExists es s t ''CONTAINS'' r"
    and "\<forall>e \<in> set es. e_type e = ''CONTAINS'' \<longrightarrow> e_sourceId e \<noteq> t"
  shows "ginv H r ns (es @ [mkEdge s t ''CONTAINS'' r])"
proof -
  have "containsBetween es s t = []"
    using assms(4,5) edgeExists_exact [OF assms(1)]
    by (auto simp: containsBetween_def filter_empty_conv list_ex_iff)
  then show ?thesis using assms(1-3) by (rule ginv_push [rotated 3])
qed

lemma containerId_simps [simp]:
  "containerId H r (rootId H r)"
  "containerId H r (folderId H r p)"
  "containerId H r (folderRef H r p)"
  "containerId H r (generateNodeId H r (''folder:'' @ x))"
  "containerId H r (generateNodeId H r (''file:'' @ x))"
  by (auto simp: containerId_def folderId_def folderRef_def)

lemma containerId_norm [simp]:
  "containerId H r (generateNodeId H r (CHR ''f'' # CHR ''o'' # CHR ''l'' # CHR ''d'' # CHR ''e'' # CHR ''r'' # CHR '':'' # x))"
  "containerId H r (generateNodeId H r (CHR ''f'' # CHR ''i'' # CHR ''l'' # CHR ''e'' # CHR '':'' # x))"
  using containerId_simps(4,5) [of H r x] by simp_all

lemma ensure_ginv:
  "ginv H r (nodes g) (edges g) \<Longrightarrow>
   ginv H r (nodes (snd (ensureFolderNode C H g r p))) (edges (snd (ensureFolderNode C H g r p))) \<and>
   grows (nodes g) (nodes (snd (ensureFolderNode C H g r p))) \<and>
   has (nodes (snd (ensureFolderNode C H g r p))) (folderRef H r p)"
proof (induction C H g r p rule: ensureFolderNode.induct)
  case (1 C H g r p)
  show ?case
  proof (cases "relString p = ''.'' \<or> has (nodes g) (folderId H r p)")
    case True
    then show ?thesis using "1.prems"
      by (auto simp: ensure_base folderRef_def ginv_def)
  next
    case False
    let ?id = "folderId H r p"
    let ?g1 = "g\<lparr>nodes := mapSet ?id (folderNode C ?id r p) (nodes g)\<rparr>"
    let ?g2 = "snd (ensureFolderNode C H ?g1 r (butlast p))"
    have "ginv H r (nodes ?g1) (edges ?g1)"
      using "1.prems" by (simp add: ginv_setNode)
    then have ih: "ginv H r (nodes ?g2) (edges ?g2)" "grows (nodes ?g1) (nodes ?g2)"
      "has (nodes ?g2) (folderRef H r (butlast p))"
      using False "1.IH" [of ?id ?g1] by (auto simp: folderId_def)
    have "ginv H r (nodes ?g2) (snd (addUniqueEdge (edges ?g2) (folderRef H r (butlast p)) ?id ''CONTAINS'' r))"
      using ih(1,3) by (rule ginv_addUnique) simp
    moreover have "grows (nodes g) (nodes ?g2)"
      using ih(2) by (auto simp: grows_def)
    moreover have "has (nodes ?g2) ?id"
      using ih(2) by (auto simp: grows_def)
    ultimately show ?thesis using False
      by (simp add: ensure_step Let_def folderRef_def)
  qed
qed


lemma stepOk_refl: "ginv H r (nodes g) (edges g) \<Longrightarrow> stepOk H r g g"
  by (simp add: stepOk_def)

lemma stepOk_trans: "stepOk H r g g' \<Longrightarrow> stepOk H r g' g'' \<Longrightarrow> stepOk H r g g''"
  by (auto simp: stepOk_def intro: grows_trans)

lemma normalize_abs:
  "p \<noteq> [] \<Longrightarrow> hd p = CHR ''/'' \<Longrightarrow> normalize p \<noteq> [] \<and> hd (normalize p) = CHR ''/''"
  by (simp add: normalize_def Let_def)

lemma pathJoin_abs:
  "a \<noteq> [] \<Longrightarrow> hd a = CHR ''/'' \<Longrightarrow> pathJoin a b \<noteq> [] \<and> hd (pathJoin a b) = CHR ''/''"
  using normalize_abs [of a] normalize_abs [of "a @ ''/'' @ b"]
  by (simp add: pathJoin_def)

lemma absString_abs:
  "lp \<noteq> [] \<Longrightarrow> hd lp = CHR ''/'' \<Longrightarrow> absString lp p \<noteq> [] \<and> hd (absString lp p) = CHR ''/''"
  unfolding absString_def
  by (induction p arbitrary: lp) (simp_all add: pathJoin_abs)

lemma abs_not_container:
  assumes "env_ok H info"
  shows "\<not> containerId H (repoId info) (generateNodeId H (repoId info) (absString (localPath info) p @ x))"
proof -
  have "absString (localPath info) p \<noteq> [] \<and> hd (absString (localPath info) p) = CHR ''/''"
    using assms by (intro absString_abs) (simp_all add: env_ok_def)
  then have "\<exists>z. absString (localPath info) p @ x = CHR ''/'' # z"
    by (cases "absString (localPath info) p") auto
  then obtain z where z: "absString (localPath info) p @ x = CHR ''/'' # z" ..
  have "inj H" using assms by (simp add: env_ok_def)
  then have "H a = H b \<longleftrightarrow> a = b" for a b
    by (simp add: inj_eq)
  then show ?thesis
    by (simp add: containerId_def rootId_def generateNodeId_def z)
qed

lemma processTag_ok:
  assumes "env_ok H info" and "ginv H (repoId info) (nodes (graph st)) (edges (graph st))"
    and "has (nodes (graph st)) fid" and "containerId H (repoId info) fid"
  shows "stepOk H (repoId info) (graph st)
           (graph (processTag H (repoId info) (absString (localPath info) p) rel fid tag st))"
proof (cases "t_kind tag")
  case Ref
  then show ?thesis using assms(2) by (simp add: processTag_def stepOk_def)
next
  case Def
  let ?r = "repoId info"
  let ?id = "generateNodeId H ?r (absString (localPath info) p @ '':'' @ t_name tag @ '':'' @ digits (t_startLine tag))"
  let ?ns = "mapSet ?id (defNode ?id ?r rel tag) (nodes (graph st))"
  have nc: "\<not> containerId H ?r ?id"
    using abs_not_container [OF assms(1)] by simp
  have g1: "ginv H ?r ?ns (edges (graph st))"
    using assms(2) by (rule ginv_setNode)
  have h1: "has ?ns fid" using assms(3) by simp
  have nosrc: "\<forall>e \<in> set (edges (graph st)). e_type e = ''CONTAINS'' \<longrightarrow> e_sourceId e \<noteq> ?id"
    using assms(2) nc by (auto simp: ginv_def)
  have "\<not> edgeExists (edges (graph st)) fid ?id ''CONTAINS'' ?r \<Longrightarrow>
        ginv H ?r ?ns (edges (graph st) @ [mkEdge fid ?id ''CONTAINS'' ?r])"
    by (rule ginv_guarded_push [OF g1 h1 assms(4) _ nosrc])
  then show ?thesis using Def g1
    by (simp add: processTag_def stepOk_def Let_def)
qed

lemma processTags_ok:
  assumes "env_ok H info" and "containerId H (repoId info) fid"
  shows "ginv H (repoId info) (nodes (graph st)) (edges (graph st)) \<Longrightarrow> has (nodes (graph st)) fid \<Longrightarrow>
         stepOk H (repoId info) (graph st)
           (graph (fold (processTag H (repoId info) (absString (localPath info) p) rel fid) ts st))"
proof (induction ts arbitrary: st)
  case Nil
  then show ?case by (simp add: stepOk_refl)
next
  case (Cons t ts)
  let ?st1 = "processTag H (repoId info) (absString (localPath info) p) rel fid t st"
  have s1: "stepOk H (repoId info) (graph st) (graph ?st1)"
    using assms Cons.prems by (intro processTag_ok)
  then have "stepOk H (repoId info) (graph ?st1)
               (graph (fold (processTag H (repoId info) (absString (localPath info) p) rel fid) ts ?st1))"
    using Cons.prems(2) by (intro Cons.IH) (auto simp: stepOk_def dest: growsD)
  with s1 show ?case by (auto intro: stepOk_trans)
qed

lemma after_parse_ok:
  assumes "env_ok H info" and "stepOk H (repoId info) g (graph st1)"
    and "has (nodes (graph st1)) fid" and "containerId H (repoId info) fid"
  shows "stepOk H (repoId info) g
           (graph (snd (case parseFile G (mtables st1) c fn rel of
                          (Resolved ts, ms) \<Rightarrow>
                            (o1, fold (processTag H (repoId info) (absString (localPath info) p) rel fid) ts
                                   (st1\<lparr>mtables := ms\<rparr>))
                        | (Rejected, ms) \<Rightarrow> (o2, st1\<lparr>mtables := ms\<rparr>)
                        | (Pending, ms) \<Rightarrow> (o3, st1\<lparr>mtables := ms\<rparr>))))"
proof -
  have "stepOk H (repoId info) g
          (graph (fold (processTag H (repoId info) (absString (localPath info) p) rel fid) ts
                    (st1\<lparr>mtables := ms\<rparr>)))" for ts ms
  proof -
    have "stepOk H (repoId info) (graph (st1\<lparr>mtables := ms\<rparr>))
            (graph (fold (processTag H (repoId info) (absString (localPath info) p) rel fid) ts (st1\<lparr>mtables := ms\<rparr>)))"
      using assms by (intro processTags_ok) (auto simp: stepOk_def)
    with assms(2) show ?thesis by (auto intro: stepOk_trans)
  qed
  then show ?thesis using assms(2)
    by (auto split: prod.splits outcome.splits)
qed

lemma processFile_ok:
  assumes "env_ok H info" and "ginv H (repoId info) (nodes (graph st)) (edges (graph st))"
    and "has (nodes (graph st)) parent" and "containerId H (repoId info) parent"
  shows "stepOk H (repoId info) (graph st) (graph (snd (processFile C H G info p c parent st)))"
  unfolding processFile_def Let_def
  using assms by (intro after_parse_ok) (auto simp: stepOk_def intro!: ginv_addUnique ginv_setNode)

lemma ensureDirNode_ok:
  assumes "ginv H (repoId info) (nodes (graph st)) (edges (graph st))"
    and "has (nodes (graph st)) parent" and "containerId H (repoId info) parent"
  shows "stepOk H (repoId info) (graph st) (graph (ensureDirNode C H info p parent st)) \<and>
         has (nodes (graph (ensureDirNode C H info p parent st)))
           (generateNodeId H (repoId info) (''folder:'' @ relString p))"
proof (cases "has (nodes (graph st)) (generateNodeId H (repoId info) (''folder:'' @ relString p))")
  case True
  then show ?thesis using assms(1) by (simp add: ensureDirNode_def Let_def stepOk_def)
next
  case False
  let ?r = "repoId info"
  let ?id = "generateNodeId H ?r (''folder:'' @ relString p)"
  let ?ns = "mapSet ?id (dirNode C ?id info p) (nodes (graph st))"
  have g1: "ginv H ?r ?ns (edges (graph st))"
    using assms(1) by (rule ginv_setNode)
  have h1: "has ?ns parent" using assms(2) by simp
  have nosrc: "\<forall>e \<in> set (edges (graph st)). e_type e = ''CONTAINS'' \<longrightarrow> e_sourceId e \<noteq> ?id"
    using assms(1) False by (auto simp: ginv_def)
  have "\<not> edgeExists (edges (graph st)) parent ?id ''CONTAINS'' ?r \<Longrightarrow>
        ginv H ?r ?ns (edges (graph st) @ [mkEdge parent ?id ''CONTAINS'' ?r])"
    by (rule ginv_guarded_push [OF g1 h1 assms(3) _ nosrc])
  then show ?thesis using False g1
    by (simp add: ensureDirNode_def Let_def stepOk_def)
qed

lemma processDirectory_ok:
  "env_ok H info \<Longrightarrow> ginv H (repoId info) (nodes (graph st)) (edges (graph st)) \<Longrightarrow>
   has (nodes (graph st)) parent \<Longrightarrow> containerId H (repoId info) parent \<Longrightarrow>
   stepOk H (repoId info) (graph st) (graph (snd (processDirectory C H G info p n parent st)))"
  and processEntries_ok:
  "env_ok H info \<Longrightarrow> ginv H (repoId info) (nodes (graph st)) (edges (graph st)) \<Longrightarrow>
   has (nodes (graph st)) dirNodeId \<Longrightarrow> containerId H (repoId info) dirNodeId \<Longrightarrow>
   stepOk H (repoId info) (graph st) (graph (snd (processEntries C H G info p es dirNodeId st)))"
proof (induction C H G info p n parent st and C H G info p es dirNodeId st
       rule: processDirectory_processEntries.induct)
  case (1 C H G info p es parentNodeId st)
  let ?d = "generateNodeId H (repoId info) (''folder:'' @ relString p)"
  let ?st1 = "ensureDirNode C H info p parentNodeId st"
  have d: "stepOk H (repoId info) (graph st) (graph ?st1)" "has (nodes (graph ?st1)) ?d"
    using ensureDirNode_ok [OF "1.prems"(2-4)] by auto
  then have "stepOk H (repoId info) (graph ?st1) (graph (snd (processEntries C H G info p es ?d ?st1)))"
    using "1.prems"(1) by (intro "1.IH") (auto simp: stepOk_def)
  with d(1) have "stepOk H (repoId info) (graph st) (graph (snd (processEntries C H G info p es ?d ?st1)))"
    by (rule stepOk_trans)
  then show ?case
    by (auto simp: Let_def split: prod.splits outcome.splits)
next
  case (2 C H G info p sz c parentNodeId st)
  then show ?case using ensureDirNode_ok by simp
next
  case (3 C H G info p parentNodeId st)
  then show ?case by (simp add: stepOk_refl)
next
  case (4 C H G info p dirNodeId st)
  then show ?case by (simp add: stepOk_refl)
next
  case (5 C H G info p entry child es dirNodeId st)
  note pre = "5.prems"
  show ?case
  proof (cases child)
    case FsBroken
    then show ?thesis using pre by (simp add: stepOk_refl)
  next
    case (FsFile sz c)
    show ?thesis
    proof (cases "isSourceFile entry")
      case False
      then show ?thesis using FsFile pre "5.IH"(2) by simp
    next
      case True
      obtain x y where xy: "processFile C H G info (p @ [entry]) c dirNodeId st = (x, y)"
        by (cases "processFile C H G info (p @ [entry]) c dirNodeId st")
      have s1: "stepOk H (repoId info) (graph st) (graph y)"
        using processFile_ok [OF pre, of C G "p @ [entry]" c] xy by simp
      show ?thesis
      proof (cases x)
        case (Resolved u)
        have "stepOk H (repoId info) (graph y) (graph (snd (processEntries C H G info p es dirNodeId y)))"
          using s1 pre FsFile True xy Resolved
          by (intro "5.IH"(1) [of sz c x y u]) (auto simp: stepOk_def dest: growsD)
        with s1 show ?thesis using FsFile True xy Resolved
          by (auto intro: stepOk_trans)
      qed (use s1 FsFile True xy in auto)
    qed
  next
    case (FsDir sub)
    show ?thesis
    proof (cases "entry \<noteq> [] \<and> hd entry = CHR ''.'' \<or> entry = ''node_modules''")
      case True
      then show ?thesis using FsDir pre "5.IH"(3) by simp
    next
      case False
      obtain x y where xy: "processDirectory C H G info (p @ [entry]) child dirNodeId st = (x, y)"
        by (cases "processDirectory C H G info (p @ [entry]) child dirNodeId st")
      have s1: "stepOk H (repoId info) (graph st) (graph y)"
        using "5.IH"(4) [OF FsDir False pre] xy by simp
      show ?thesis
      proof (cases x)
        case (Resolved u)
        have "stepOk H (repoId info) (graph y) (graph (snd (processEntries C H G info p es dirNodeId y)))"
          using s1 pre FsDir False xy Resolved
          by (intro "5.IH"(5) [of sub x y u]) (auto simp: stepOk_def dest: growsD)
        with s1 show ?thesis using FsDir False xy Resolved
          by (auto intro: stepOk_trans)
      qed (use s1 FsDir False xy in auto)
    qed
  qed
qed


lemma fileStep_ok:
  assumes "env_ok H info" and "ginv H (repoId info) (nodes (graph st)) (edges (graph st))"
  shows "stepOk H (repoId info) (graph st) (graph (snd (fileStep C H G info fs p st)))"
proof -
  let ?r = "repoId info"
  let ?fid = "generateNodeId H ?r (''file:'' @ joinSegs p)"
  let ?e = "ensureFolderNode C H (graph st) ?r (butlast p)"
  let ?g2 = "\<lparr>nodes = mapSet ?fid
                 (fileNode ?fid ?r (baseNameOf (localPath info) p) (joinSegs p)
                    (createdNow C ?fid) (modifiedNow C ?fid)) (nodes (snd ?e)),
              edges = snd (addUniqueEdge (edges (snd ?e)) (fst ?e) ?fid ''CONTAINS'' ?r)\<rparr>"
  have e: "ginv H ?r (nodes (snd ?e)) (edges (snd ?e))" "grows (nodes (graph st)) (nodes (snd ?e))"
    "has (nodes (snd ?e)) (fst ?e)" "containerId H ?r (fst ?e)"
    using ensure_ginv [OF assms(2), of C "butlast p"] by (simp_all add: ensure_fst)
  have "ginv H ?r (nodes ?g2) (edges ?g2)"
    using e(1,3,4) by (auto intro!: ginv_addUnique ginv_setNode)
  moreover have "grows (nodes (graph st)) (nodes ?g2)"
    using e(2) by (auto simp: grows_def)
  ultimately have s2: "stepOk H ?r (graph st) (graph (st\<lparr>graph := ?g2\<rparr>))"
    by (simp add: stepOk_def)
  have h2: "has (nodes (graph (st\<lparr>graph := ?g2\<rparr>))) ?fid"
    by simp
  let ?body = "\<lambda>c. (case parseFile G (mtables (st\<lparr>graph := ?g2\<rparr>)) c (baseNameOf (localPath info) p) (joinSegs p) of
                          (Resolved ts, ms) \<Rightarrow>
                            (Resolved (), fold (processTag H ?r (absString (localPath info) p) (joinSegs p) ?fid) ts
                                   (st\<lparr>graph := ?g2\<rparr>\<lparr>mtables := ms\<rparr>))
                        | (Rejected, ms) \<Rightarrow> (Rejected, st\<lparr>graph := ?g2\<rparr>\<lparr>mtables := ms\<rparr>)
                        | (Pending, ms) \<Rightarrow> (Pending, st\<lparr>graph := ?g2\<rparr>\<lparr>mtables := ms\<rparr>))"
  have body: "stepOk H ?r (graph st) (graph (snd (?body c)))" for c
    using assms(1) s2 h2 by (rule after_parse_ok) simp
  let ?stat = "(case lookup fs p of
                    None \<Rightarrow> None
                  | Some FsBroken \<Rightarrow> None
                  | Some (FsFile sz c) \<Rightarrow> if sz = 0 then None else Some c
                  | Some (FsDir es) \<Rightarrow> Some Unreadable)"
  consider (skip) "has (nodes (graph st)) ?fid \<or> ?stat = None"
    | (go) c where "\<not> has (nodes (graph st)) ?fid" "?stat = Some c"
    by (cases ?stat) auto
  then show ?thesis
  proof cases
    case skip
    then have "fileStep C H G info fs p st = (Resolved (), st)"
      unfolding fileStep_def Let_def by auto
    then show ?thesis using stepOk_refl [OF assms(2)] by simp
  next
    case go
    then have "fileStep C H G info fs p st = ?body c"
      unfolding fileStep_def Let_def case_prod_beta by simp
    then show ?thesis using body [of c] by simp
  qed
qed

lemma processFiles_ok:
  assumes "env_ok H info"
  shows "ginv H (repoId info) (nodes (graph st)) (edges (graph st)) \<Longrightarrow>
         stepOk H (repoId info) (graph st) (graph (snd (processFiles C H G info fs ps st)))"
proof (induction ps arbitrary: st)
  case Nil
  then show ?case by (simp add: stepOk_refl)
next
  case (Cons p ps)
  obtain x y where xy: "fileStep C H G info fs p st = (x, y)"
    by (cases "fileStep C H G info fs p st")
  have s1: "stepOk H (repoId info) (graph st) (graph y)"
    using fileStep_ok [OF assms Cons.prems, of C G fs p] xy by simp
  show ?case
  proof (cases x)
    case (Resolved u)
    have "stepOk H (repoId info) (graph y) (graph (snd (processFiles C H G info fs ps y)))"
      using s1 by (intro Cons.IH) (simp add: stepOk_def)
    with s1 show ?thesis using xy Resolved by (auto intro: stepOk_trans)
  qed (use s1 xy in auto)
qed

lemma linkReference_ok:
  assumes "ginv H r (nodes (rgraph rs)) (edges (rgraph rs))" and "containerId H r fid"
  shows "ginv H r (nodes (rgraph (linkReference r rid did fid ref rs)))
                  (edges (rgraph (linkReference r rid did fid ref rs)))"
proof -
  let ?g = "rgraph rs"
  define ns where "ns = mapSet rid (refNode rid r ref) (nodes ?g)"
  define es where "es = snd (addUniqueEdge (edges ?g) fid rid ''CONTAINS'' r)"
  have a: "ginv H r ns (edges ?g)"
    unfolding ns_def using assms(1) by (rule ginv_setNode)
  have b: "has ns fid \<Longrightarrow> ginv H r ns es"
    unfolding es_def using a assms(2) by (intro ginv_addUnique) simp_all
  have hr: "has ns rid"
    by (simp add: ns_def)
  have c1: "has ns fid \<Longrightarrow> addUniqueEdge es rid did ''REFERENCES'' r = (bb, es') \<Longrightarrow> ginv H r ns es'" for bb es'
    using ginv_addUnique [of H r ns es rid "''REFERENCES''" did] b hr by simp
  have c2: "has (nodes ?g) rid \<Longrightarrow> addUniqueEdge (edges ?g) rid did ''REFERENCES'' r = (bb, es') \<Longrightarrow>
            ginv H r (nodes ?g) es'" for bb es'
    using ginv_addUnique [of H r "nodes ?g" "edges ?g" rid "''REFERENCES''" did] assms(1) by simp
  show ?thesis
  proof (cases "has (nodes ?g) rid")
    case True
    then show ?thesis using assms(1) c2
      by (auto simp: linkReference_def Let_def split: prod.splits bool.splits)
  next
    case False
    then show ?thesis using a b c1
      unfolding linkReference_def Let_def ns_def [symmetric] es_def [symmetric]
      by (auto simp: ns_def [symmetric] es_def [symmetric] simp del: has_mapSet split: prod.splits bool.splits)
  qed
qed

lemma resolveReference_ok:
  assumes "ginv H r (nodes (rgraph rs)) (edges (rgraph rs))"
  shows "ginv H r (nodes (rgraph (resolveReference H r defs ref rs)))
                  (edges (rgraph (resolveReference H r defs ref rs)))"
  using assms containerId_simps(5) [of H r "t_filePath ref"]
  by (auto simp: resolveReference_def intro!: linkReference_ok split: option.splits)

lemma resolveReferences_ok:
  "ginv H r (nodes g) (edges g) \<Longrightarrow>
   ginv H r (nodes (rgraph (resolveReferences H r defs refs g)))
            (edges (rgraph (resolveReferences H r defs refs g)))"
proof -
  have "ginv H r (nodes (rgraph rs)) (edges (rgraph rs)) \<Longrightarrow>
        ginv H r (nodes (rgraph (fold (resolveReference H r defs) refs rs)))
                 (edges (rgraph (fold (resolveReference H r defs) refs rs)))" for rs
    by (induction refs arbitrary: rs) (simp_all add: resolveReference_ok)
  then show "ginv H r (nodes g) (edges g) \<Longrightarrow> ?thesis"
    by (simp add: resolveReferences_def)
qed

lemma initial_ginv:
  "ginv H (repoId info) (nodes (graph (initial_state C H info ms))) (edges (graph (initial_state C H info ms)))"
  by (simp add: initial_state_def Let_def ginv_def rootId_def containsBetween_def has_def)

lemma extraction_ok:
  assumes "env_ok H info"
  shows "ginv H (repoId info) (nodes (graph (snd (extraction C H G info fs files ms))))
                (edges (graph (snd (extraction C H G info fs files ms))))"
proof -
  let ?st0 = "initial_state C H info ms"
  let ?root = "generateNodeId H (repoId info) ''repo:root''"
  obtain x y where xy: "processDirectory C H G info [] fs ?root ?st0 = (x, y)"
    by (cases "processDirectory C H G info [] fs ?root ?st0")
  have "has (nodes (graph ?st0)) ?root"
    by (simp add: initial_state_def Let_def has_def)
  moreover have "containerId H (repoId info) ?root"
    using containerId_simps(1) [of H "repoId info"] by (simp add: rootId_def)
  ultimately have "stepOk H (repoId info) (graph ?st0)
                     (graph (snd (processDirectory C H G info [] fs ?root ?st0)))"
    by (rule processDirectory_ok [OF assms initial_ginv])
  then have "stepOk H (repoId info) (graph ?st0) (graph y)"
    using xy by simp
  then have y: "ginv H (repoId info) (nodes (graph y)) (edges (graph y))"
    by (simp add: stepOk_def)
  then have "stepOk H (repoId info) (graph y) (graph (snd (processFiles C H G info fs files y)))"
    by (rule processFiles_ok [OF assms])
  then show ?thesis using xy y
    by (auto simp: extraction_def stepOk_def split: outcome.splits)
qed

section \<open>Determinism of buildGraph\<close>

subsection \<open>The module tables stay as they are\<close>

lemma identifiersOk_children: "identifiersOk n \<Longrightarrow> c \<in> set (children n) \<Longrightarrow> identifiersOk c"
  by (subst (asm) identifiersOk.simps) (auto simp: list_all_iff)

lemma identifiersOk_name: "identifiersOk (Identifier l s) \<Longrightarrow> CHR ''#'' \<notin> set s"
  by (subst (asm) identifiersOk.simps) simp

lemma importSpecifier_inert: "EXPORT_MAP ms = Map.empty \<Longrightarrow> importSpecifier src spec ms = ms"
  by (simp add: importSpecifier_def)

lemma fold_importSpecifier_inert: "EXPORT_MAP ms = Map.empty \<Longrightarrow> fold (importSpecifier src) specs ms = ms"
  by (induction specs) (simp_all add: importSpecifier_inert)

lemma importResolution_inert:
  assumes "inert (tables st)" and "identifiersOk n"
  shows "importResolution rp n st = st"
proof (cases n)
  case (CallExpression l callee args)
  show ?thesis
  proof (cases callee)
    case (Identifier l' c)
    have "identifiersOk callee"
      using assms(2) CallExpression by (auto intro: identifiersOk_children)
    then have "CHR ''#'' \<notin> set c"
      using Identifier by (auto dest: identifiersOk_name)
    then show ?thesis using assms(1) CallExpression Identifier
      by (simp add: inert_def resolveName_def Let_def)
  next
    case (MemberExpression l' obj prp)
    then show ?thesis using assms(1) CallExpression
      by (simp add: inert_def Let_def)
  qed (simp_all add: CallExpression)
qed simp_all

lemma enter_inert:
  assumes "inert (tables st)" and "identifiersOk n"
  shows "tables (enter G rp n st) = tables st"
proof (cases n)
  case (ImportDeclaration l specs src)
  then show ?thesis using assms(1) by (simp add: inert_def fold_importSpecifier_inert)
next
  case (CallExpression l callee args)
  let ?st1 = "pushTag (mkTag (getFunctionName G n) ''functionCall'' Ref rp None n
                 (Some (callParent (currentClass st) rp n))) st"
  have "inert (tables ?st1)" using assms(1) by (simp add: pushTag_def)
  then have ir: "importResolution rp n ?st1 = ?st1"
    using assms(2) by (rule importResolution_inert)
  have e: "enter G rp n st = (if shouldIgnoreFunctionCall G n then st else importResolution rp n ?st1)"
    unfolding CallExpression by (simp add: Let_def)
  show ?thesis unfolding e ir by (simp add: pushTag_def)
next
  case (ClassDeclaration l c cs)
  then show ?thesis by (cases c) (simp_all add: pushTag_def)
next
  case (FunctionDeclaration l f cs)
  then show ?thesis by (cases f) (simp_all add: pushTag_def)
next
  case (NewExpression l callee args)
  then show ?thesis by (cases callee) (simp_all add: pushTag_def Let_def)
qed (simp_all add: pushTag_def Let_def)

lemma exit_tables [simp]: "tables (exit_node n st) = tables st"
  by (cases n) simp_all

lemma fold_keeps_tables:
  assumes "\<And>c st. c \<in> set cs \<Longrightarrow> inert (tables st) \<Longrightarrow> tables (f c st) = tables st"
  shows "inert (tables st) \<Longrightarrow> tables (fold f cs st) = tables st"
  using assms
proof (induction cs arbitrary: st)
  case Nil
  then show ?case by simp
next
  case (Cons c cs)
  have 1: "tables (f c st) = tables st" using Cons.prems by simp
  then have "tables (fold f cs (f c st)) = tables (f c st)"
    using Cons.prems by (intro Cons.IH) auto
  with 1 show ?case by simp
qed

lemma traverse_inert:
  "inert (tables st) \<Longrightarrow> identifiersOk n \<Longrightarrow> tables (traverse G rp n st) = tables st"
proof (induction G rp n st rule: traverse.induct)
  case (1 G rp n st)
  have e: "tables (enter G rp n st) = tables st"
    using "1.prems" by (rule enter_inert)
  have "tables (fold (traverse G rp) (children n) (enter G rp n st)) = tables (enter G rp n st)"
  proof (rule fold_keeps_tables)
    fix c and st' :: visitor_state
    assume "c \<in> set (children n)" "inert (tables st')"
    then show "tables (traverse G rp c st') = tables st'"
      using "1.IH" "1.prems"(2) identifiersOk_children by blast
  next
    show "inert (tables (enter G rp n st))" using e "1.prems"(1) by simp
  qed
  with e show ?case by simp
qed

lemma parseFile_inert:
  assumes "inert ms" and "contentOk c"
  shows "snd (parseFile G ms c fn rp) = ms"
proof (cases c)
  case (Program body)
  have "tables (fold (traverse G rp) body \<lparr>tables = ms, currentClass = None, tags = []\<rparr>) =
        tables \<lparr>tables = ms, currentClass = None, tags = []\<rparr>"
  proof (rule fold_keeps_tables)
    fix n and st' :: visitor_state
    assume "n \<in> set body" "inert (tables st')"
    then show "tables (traverse G rp n st') = tables st'"
      using assms(2) Program by (intro traverse_inert) (auto simp: list_all_iff)
  qed (use assms(1) in simp)
  then show ?thesis using Program by (simp add: parseFile_def Let_def)
qed (simp_all add: parseFile_def)

subsection \<open>The clock reaches the time stamps only\<close>

lemma has_strip [simp]: "has (stripNodes m) k = has m k"
  by (induction m) (auto simp: has_def stripNodes_def)

lemma same_has: "stripNodes m = stripNodes m' \<Longrightarrow> has m k = has m' k"
  by (metis has_strip)

lemma sameGraph_has: "sameGraph g g' \<Longrightarrow> has (nodes g) k = has (nodes g') k"
  by (auto simp: sameGraph_def dest: same_has)

lemma strip_mapSet: "stripNodes (mapSet k v m) = mapSet k (stripNode v) (stripNodes m)"
  by (induction m) (auto simp: stripNodes_def)

lemma sameGraph_refl [simp]: "sameGraph g g"
  by (simp add: sameGraph_def)

lemma sameState_refl [simp]: "sameState st st"
  by (simp add: sameState_def)

lemma sameGraph_set:
  "sameGraph g g' \<Longrightarrow> stripNode v = stripNode v' \<Longrightarrow>
   stripNodes (mapSet k v (nodes g)) = stripNodes (mapSet k v' (nodes g'))"
  by (simp add: sameGraph_def strip_mapSet)

lemma strip_folderNode: "stripNode (folderNode C k r p) = stripNode (folderNode C' k r p)"
  by (simp add: stripNode_def folderNode_def)

lemma strip_fileNode: "stripNode (fileNode k r n rel a b) = stripNode (fileNode k r n rel a' b')"
  by (simp add: stripNode_def fileNode_def)

lemma strip_dirNode: "stripNode (dirNode C k info p) = stripNode (dirNode C' k info p)"
  by (simp add: stripNode_def dirNode_def Let_def)

lemma strip_rootNode: "stripNode (rootNode C k info) = stripNode (rootNode C' k info)"
  by (simp add: stripNode_def rootNode_def)

lemma ensure_same:
  "sameGraph g g' \<Longrightarrow>
   sameGraph (snd (ensureFolderNode C H g r p)) (snd (ensureFolderNode C' H g' r p))"
proof (induction C H g r p arbitrary: g' rule: ensureFolderNode.induct)
  case (1 C H g r p)
  show ?case
  proof (cases "relString p = ''.'' \<or> has (nodes g) (folderId H r p)")
    case True
    then have "relString p = ''.'' \<or> has (nodes g') (folderId H r p)"
      using sameGraph_has [OF "1.prems"] by simp
    with True show ?thesis using "1.prems" by (simp add: ensure_base)
  next
    case False
    then have F': "relString p \<noteq> ''.''" "\<not> has (nodes g') (folderId H r p)"
      using sameGraph_has [OF "1.prems"] by simp_all
    let ?id = "folderId H r p"
    let ?g1 = "g\<lparr>nodes := mapSet ?id (folderNode C ?id r p) (nodes g)\<rparr>"
    let ?g1' = "g'\<lparr>nodes := mapSet ?id (folderNode C' ?id r p) (nodes g')\<rparr>"
    have "sameGraph ?g1 ?g1'"
      using "1.prems" sameGraph_set [OF "1.prems" strip_folderNode]
      by (simp add: sameGraph_def)
    then have "sameGraph (snd (ensureFolderNode C H ?g1 r (butlast p)))
                         (snd (ensureFolderNode C' H ?g1' r (butlast p)))"
      using False by (intro "1.IH") (auto simp: folderId_def)
    then show ?thesis using False F'
      by (simp add: ensure_step Let_def sameGraph_def)
  qed
qed

lemma processTag_same:
  "sameState st st' \<Longrightarrow>
   sameState (processTag H r fp rel fid t st) (processTag H r fp rel fid t st') \<and>
   mtables (processTag H r fp rel fid t st) = mtables st"
  by (cases "t_kind t")
     (auto simp: processTag_def Let_def sameState_def sameGraph_def strip_mapSet)

lemma processTags_same:
  "sameState st st' \<Longrightarrow>
   sameState (fold (processTag H r fp rel fid) ts st) (fold (processTag H r fp rel fid) ts st') \<and>
   mtables (fold (processTag H r fp rel fid) ts st) = mtables st"
proof (induction ts arbitrary: st st')
  case Nil
  then show ?case by simp
next
  case (Cons t ts)
  from processTag_same [OF Cons.prems, of H r fp rel fid t]
  have 1: "sameState (processTag H r fp rel fid t st) (processTag H r fp rel fid t st')"
    and 2: "mtables (processTag H r fp rel fid t st) = mtables st" by auto
  from Cons.IH [OF 1] 2 show ?case by simp
qed


lemma agree_sameState_mtables: "sameState st st' \<Longrightarrow> mtables st' = mtables st"
  by (simp add: sameState_def)

lemma after_parse_same:
  assumes "sameState st1 st1'" and "inert ms0" and "contentOk c" and "mtables st1 = ms0"
  shows "agree (case parseFile G (mtables st1) c fn rel of
                  (Resolved ts, ms) \<Rightarrow>
                    (o1, fold (processTag H r fp rel fid) ts (st1\<lparr>mtables := ms\<rparr>))
                | (Rejected, ms) \<Rightarrow> (o2, st1\<lparr>mtables := ms\<rparr>)
                | (Pending, ms) \<Rightarrow> (o3, st1\<lparr>mtables := ms\<rparr>))
               (case parseFile G (mtables st1') c fn rel of
                  (Resolved ts, ms) \<Rightarrow>
                    (o1, fold (processTag H r fp rel fid) ts (st1'\<lparr>mtables := ms\<rparr>))
                | (Rejected, ms) \<Rightarrow> (o2, st1'\<lparr>mtables := ms\<rparr>)
                | (Pending, ms) \<Rightarrow> (o3, st1'\<lparr>mtables := ms\<rparr>)) ms0"
proof -
  have m': "mtables st1' = ms0"
    using assms(1,4) by (simp add: sameState_def)
  have "snd (parseFile G ms0 c fn rel) = ms0"
    using assms(2,3) by (rule parseFile_inert)
  then obtain x where x: "parseFile G ms0 c fn rel = (x, ms0)"
    by (cases "parseFile G ms0 c fn rel") simp
  have u: "st1\<lparr>mtables := ms0\<rparr> = st1" "st1'\<lparr>mtables := ms0\<rparr> = st1'"
    using assms(4) m' by simp_all
  have t: "sameState (fold (processTag H r fp rel fid) ts st1) (fold (processTag H r fp rel fid) ts st1') \<and>
           mtables (fold (processTag H r fp rel fid) ts st1) = ms0" for ts
    using processTags_same [OF assms(1), of H r fp rel fid ts] assms(4) by simp
  show ?thesis
    unfolding assms(4) m' x
    using assms(1) t by (cases x) (simp_all add: agree_def u assms(4))
qed

lemma processFile_same:
  assumes "sameState st st'" and "inert (mtables st)" and "contentOk c"
  shows "agree (processFile C H G info p c parent st) (processFile C' H G info p c parent st')
           (mtables st)"
proof -
  let ?r = "repoId info"
  let ?fid = "generateNodeId H ?r (''file:'' @ joinSegs p)"
  have g: "sameGraph (graph st) (graph st')" and m: "mtables st' = mtables st"
    and d: "definitions st' = definitions st" and rf: "references st' = references st"
    using assms(1) by (simp_all add: sameState_def)
  have h: "has (nodes (graph st')) ?fid = has (nodes (graph st)) ?fid"
    using sameGraph_has [OF g] by simp
  have e: "edges (graph st') = edges (graph st)"
    using g by (simp add: sameGraph_def)
  show ?thesis
    unfolding processFile_def Let_def h e
    using assms sameGraph_set [OF g strip_fileNode]
    by (intro after_parse_same) (auto simp: sameState_def sameGraph_def)
qed

lemma ensureDirNode_same:
  assumes "sameState st st'"
  shows "sameState (ensureDirNode C H info p parent st) (ensureDirNode C' H info p parent st') \<and>
         mtables (ensureDirNode C H info p parent st) = mtables st"
proof -
  have g: "sameGraph (graph st) (graph st')"
    using assms by (simp add: sameState_def)
  have h: "has (nodes (graph st')) k = has (nodes (graph st)) k" for k
    using sameGraph_has [OF g] by simp
  have e: "edges (graph st') = edges (graph st)"
    using g by (simp add: sameGraph_def)
  show ?thesis
    unfolding ensureDirNode_def Let_def h e
    using assms sameGraph_set [OF g strip_dirNode]
    by (auto simp: sameState_def sameGraph_def)
qed

lemma lookup_fsOk: "fsOk fs \<Longrightarrow> lookup fs p = Some n \<Longrightarrow> fsOk n"
proof (induction fs p rule: lookup.induct)
  case (2 es s p)
  then show ?case
    by (auto simp: list_all_iff split: option.splits dest!: map_of_SomeD)
qed auto


lemma agreeD:
  "agree a b ms \<Longrightarrow> fst a = fst b \<and> sameState (snd a) (snd b) \<and> mtables (snd a) = ms"
  by (simp add: agree_def)

lemma agree_refl_state: "sameState st st' \<Longrightarrow> agree (x, st) (x, st') (mtables st)"
  by (simp add: agree_def)

lemma processDirectory_same:
  "sameState st st' \<Longrightarrow> inert (mtables st) \<Longrightarrow> fsOk n \<Longrightarrow>
   agree (processDirectory C H G info p n parent st) (processDirectory C' H G info p n parent st')
     (mtables st)"
  and processEntries_same:
  "sameState st st' \<Longrightarrow> inert (mtables st) \<Longrightarrow> list_all (\<lambda>x. fsOk (snd x)) es \<Longrightarrow>
   agree (processEntries C H G info p es dirNodeId st) (processEntries C' H G info p es dirNodeId st')
     (mtables st)"
proof (induction C H G info p n parent st and C H G info p es dirNodeId st
       arbitrary: st' and st'
       rule: processDirectory_processEntries.induct)
  case (1 C H G info p es parentNodeId st)
  let ?d = "generateNodeId H (repoId info) (''folder:'' @ relString p)"
  let ?st1 = "ensureDirNode C H info p parentNodeId st"
  let ?st1' = "ensureDirNode C' H info p parentNodeId st'"
  have d: "sameState ?st1 ?st1'" "mtables ?st1 = mtables st"
    using ensureDirNode_same [OF "1.prems"(1)] by auto
  have "agree (processEntries C H G info p es ?d ?st1) (processEntries C' H G info p es ?d ?st1')
          (mtables ?st1)"
    using d "1.prems" by (intro "1.IH") auto
  then show ?case using d(2)
    by (auto simp: Let_def agree_def split: prod.splits outcome.splits)
next
  case (2 C H G info p sz c parentNodeId st)
  then show ?case using ensureDirNode_same [of st st'] by (simp add: agree_def)
next
  case (3 C H G info p parentNodeId st)
  then show ?case by (simp add: agree_def)
next
  case (4 C H G info p dirNodeId st)
  then show ?case by (simp add: agree_def)
next
  case (5 C H G info p entry child es dirNodeId st)
  note pre = "5.prems"
  have rest: "list_all (\<lambda>x. fsOk (snd x)) es" and ch: "fsOk child"
    using pre(3) by simp_all
  show ?case
  proof (cases child)
    case FsBroken
    then show ?thesis using pre by (simp add: agree_def)
  next
    case (FsFile sz c)
    show ?thesis
    proof (cases "isSourceFile entry")
      case False
      then show ?thesis using FsFile pre(1,2) rest "5.IH"(2) by simp
    next
      case True
      obtain x y where xy: "processFile C H G info (p @ [entry]) c dirNodeId st = (x, y)"
        by (cases "processFile C H G info (p @ [entry]) c dirNodeId st")
      obtain x' y' where xy': "processFile C' H G info (p @ [entry]) c dirNodeId st' = (x', y')"
        by (cases "processFile C' H G info (p @ [entry]) c dirNodeId st'")
      have "contentOk c" using ch FsFile by simp
      from processFile_same [OF pre(1,2) this, of C H G info "p @ [entry]" dirNodeId C']
      have s1: "x' = x" "sameState y y'" "mtables y = mtables st"
        using xy xy' by (simp_all add: agree_def)
      show ?thesis
      proof (cases x)
        case (Resolved u)
        have "agree (processEntries C H G info p es dirNodeId y)
                    (processEntries C' H G info p es dirNodeId y') (mtables y)"
          using s1 pre(2) rest FsFile True xy Resolved
          by (intro "5.IH"(1) [of sz c x y u]) auto
        then show ?thesis using FsFile True xy xy' Resolved s1 by simp
      qed (use s1 FsFile True xy xy' in \<open>auto simp: agree_def\<close>)
    qed
  next
    case (FsDir sub)
    show ?thesis
    proof (cases "entry \<noteq> [] \<and> hd entry = CHR ''.'' \<or> entry = ''node_modules''")
      case True
      then show ?thesis using FsDir pre(1,2) rest "5.IH"(3) by simp
    next
      case False
      obtain x y where xy: "processDirectory C H G info (p @ [entry]) child dirNodeId st = (x, y)"
        by (cases "processDirectory C H G info (p @ [entry]) child dirNodeId st")
      obtain x' y' where xy': "processDirectory C' H G info (p @ [entry]) child dirNodeId st' = (x', y')"
        by (cases "processDirectory C' H G info (p @ [entry]) child dirNodeId st'")
      have s1: "x' = x" "sameState y y'" "mtables y = mtables st"
        using "5.IH"(4) [OF FsDir False pre(1,2) ch] xy xy' by (simp_all add: agree_def)
      have eq: "processEntries K H G info p ((entry, child) # es) dirNodeId s =
                  (case processDirectory K H G info (p @ [entry]) child dirNodeId s of
                     (Resolved u, s') \<Rightarrow> processEntries K H G info p es dirNodeId s'
                   | res \<Rightarrow> res)" for K s
        using FsDir False by (auto simp del: processDirectory.simps)
      show ?thesis
      proof (cases x)
        case (Resolved u)
        have "agree (processEntries C H G info p es dirNodeId y)
                    (processEntries C' H G info p es dirNodeId y') (mtables y)"
          using s1 pre(2) rest FsDir False xy Resolved
          by (intro "5.IH"(5) [of sub x y u]) auto
        then show ?thesis unfolding eq xy xy' using Resolved s1 by simp
      next
        case Rejected
        then show ?thesis unfolding eq xy xy' using s1 by (simp add: agree_def)
      next
        case Pending
        then show ?thesis unfolding eq xy xy' using s1 by (simp add: agree_def)
      qed
    qed
  qed
qed


lemma fileStep_same:
  assumes "sameState st st'" and "inert (mtables st)" and "fsOk fs"
  shows "agree (fileStep C H G info fs p st) (fileStep C' H G info fs p st') (mtables st)"
proof -
  let ?r = "repoId info"
  let ?fid = "generateNodeId H ?r (''file:'' @ joinSegs p)"
  let ?e = "\<lambda>K s. ensureFolderNode K H (graph s) ?r (butlast p)"
  let ?g2 = "\<lambda>K s. \<lparr>nodes = mapSet ?fid
                 (fileNode ?fid ?r (baseNameOf (localPath info) p) (joinSegs p)
                    (createdNow K ?fid) (modifiedNow K ?fid)) (nodes (snd (?e K s))),
              edges = snd (addUniqueEdge (edges (snd (?e K s))) (fst (?e K s)) ?fid ''CONTAINS'' ?r)\<rparr>"
  let ?body = "\<lambda>K s c. (case parseFile G (mtables (s\<lparr>graph := ?g2 K s\<rparr>)) c (baseNameOf (localPath info) p) (joinSegs p) of
                          (Resolved ts, ms) \<Rightarrow>
                            (Resolved (), fold (processTag H ?r (absString (localPath info) p) (joinSegs p) ?fid) ts
                                   (s\<lparr>graph := ?g2 K s\<rparr>\<lparr>mtables := ms\<rparr>))
                        | (Rejected, ms) \<Rightarrow> (Rejected, s\<lparr>graph := ?g2 K s\<rparr>\<lparr>mtables := ms\<rparr>)
                        | (Pending, ms) \<Rightarrow> (Pending, s\<lparr>graph := ?g2 K s\<rparr>\<lparr>mtables := ms\<rparr>))"
  let ?stat = "(case lookup fs p of
                    None \<Rightarrow> None
                  | Some FsBroken \<Rightarrow> None
                  | Some (FsFile sz c) \<Rightarrow> if sz = 0 then None else Some c
                  | Some (FsDir es) \<Rightarrow> Some Unreadable)"
  have g: "sameGraph (graph st) (graph st')"
    using assms(1) by (simp add: sameState_def)
  have h: "has (nodes (graph st')) ?fid = has (nodes (graph st)) ?fid"
    using sameGraph_has [OF g] by simp
  have e: "sameGraph (snd (?e C st)) (snd (?e C' st'))" "fst (?e C' st') = fst (?e C st)"
    using ensure_same [OF g] by (simp_all add: ensure_fst)
  have s2: "sameState (st\<lparr>graph := ?g2 C st\<rparr>) (st'\<lparr>graph := ?g2 C' st'\<rparr>)"
    using assms(1) e sameGraph_set [OF e(1) strip_fileNode]
    by (simp add: sameState_def sameGraph_def)
  have body: "contentOk c \<Longrightarrow> agree (?body C st c) (?body C' st' c) (mtables st)" for c
    using s2 assms(2) by (rule after_parse_same) simp_all
  consider (skip) "has (nodes (graph st)) ?fid \<or> ?stat = None"
    | (go) c where "\<not> has (nodes (graph st)) ?fid" "?stat = Some c"
    by (cases ?stat) auto
  then show ?thesis
  proof cases
    case skip
    then have "fileStep C H G info fs p st = (Resolved (), st)"
      "fileStep C' H G info fs p st' = (Resolved (), st')"
      unfolding fileStep_def Let_def h by auto
    then show ?thesis using assms(1) by (simp add: agree_def)
  next
    case go
    have ok: "contentOk c"
      using go(2) lookup_fsOk [OF assms(3), of p]
      by (auto split: option.splits fsnode.splits if_splits)
    have "fileStep C H G info fs p st = ?body C st c"
      "fileStep C' H G info fs p st' = ?body C' st' c"
      using go unfolding fileStep_def Let_def case_prod_beta h by simp_all
    then show ?thesis using body [OF ok] by simp
  qed
qed

lemma processFiles_same:
  assumes "fsOk fs"
  shows "sameState st st' \<Longrightarrow> inert (mtables st) \<Longrightarrow>
         agree (processFiles C H G info fs ps st) (processFiles C' H G info fs ps st') (mtables st)"
proof (induction ps arbitrary: st st')
  case Nil
  then show ?case by (simp add: agree_def)
next
  case (Cons p ps)
  obtain x y where xy: "fileStep C H G info fs p st = (x, y)"
    by (cases "fileStep C H G info fs p st")
  obtain x' y' where xy': "fileStep C' H G info fs p st' = (x', y')"
    by (cases "fileStep C' H G info fs p st'")
  have s1: "x' = x" "sameState y y'" "mtables y = mtables st"
    using fileStep_same [OF Cons.prems assms, of C H G info p C'] xy xy'
    by (simp_all add: agree_def)
  show ?case
  proof (cases x)
    case (Resolved u)
    have "agree (processFiles C H G info fs ps y) (processFiles C' H G info fs ps y') (mtables y)"
      using s1 Cons.prems(2) by (intro Cons.IH) simp_all
    then show ?thesis using xy xy' Resolved s1 by simp
  qed (use s1 xy xy' in \<open>auto simp: agree_def\<close>)
qed

lemma initial_same:
  "sameState (initial_state C H info ms) (initial_state C' H info ms) \<and>
   mtables (initial_state C H info ms) = ms"
  using strip_rootNode [of C _ info C']
  by (simp add: initial_state_def Let_def sameState_def sameGraph_def stripNodes_def)

lemma extraction_same:
  assumes "fsOk fs" and "inert ms"
  shows "agree (extraction C H G info fs files ms) (extraction C' H G info fs files ms) ms"
proof -
  let ?root = "generateNodeId H (repoId info) ''repo:root''"
  let ?st0 = "initial_state C H info ms"
  let ?st0' = "initial_state C' H info ms"
  have i: "sameState ?st0 ?st0'" "mtables ?st0 = ms"
    using initial_same [of C H info ms C'] by simp_all
  obtain x y where xy: "processDirectory C H G info [] fs ?root ?st0 = (x, y)"
    by (cases "processDirectory C H G info [] fs ?root ?st0")
  obtain x' y' where xy': "processDirectory C' H G info [] fs ?root ?st0' = (x', y')"
    by (cases "processDirectory C' H G info [] fs ?root ?st0'")
  have "agree (processDirectory C H G info [] fs ?root ?st0)
              (processDirectory C' H G info [] fs ?root ?st0') (mtables ?st0)"
    using i assms by (intro processDirectory_same) simp_all
  then have s1: "x' = x" "sameState y y'" "mtables y = ms"
    using xy xy' i(2) by (simp_all add: agree_def)
  show ?thesis
  proof (cases x)
    case (Resolved u)
    have "agree (processFiles C H G info fs files y) (processFiles C' H G info fs files y') (mtables y)"
      using s1 assms by (intro processFiles_same) simp_all
    then show ?thesis using xy xy' Resolved s1 by (simp add: extraction_def)
  qed (use s1 xy xy' in \<open>auto simp: agree_def extraction_def\<close>)
qed

lemma linkReference_same:
  assumes "sameResolver rs rs'"
  shows "sameResolver (linkReference r rid did fid ref rs) (linkReference r rid did fid ref rs')"
proof -
  have g: "sameGraph (rgraph rs) (rgraph rs')"
    using assms by (simp add: sameResolver_def)
  have h: "has (nodes (rgraph rs')) k = has (nodes (rgraph rs)) k" for k
    using sameGraph_has [OF g] by simp
  have e: "edges (rgraph rs') = edges (rgraph rs)"
    and f: "resolvedRefs rs' = resolvedRefs rs" "resolvedCount rs' = resolvedCount rs"
      "missingDefinitions rs' = missingDefinitions rs" "missingNodes rs' = missingNodes rs"
    and n: "stripNodes (nodes (rgraph rs')) = stripNodes (nodes (rgraph rs))"
    using assms by (simp_all add: sameResolver_def sameGraph_def)
  obtain b es' where a1: "addUniqueEdge (edges (rgraph rs)) rid did ''REFERENCES'' r = (b, es')"
    by (cases "addUniqueEdge (edges (rgraph rs)) rid did ''REFERENCES'' r")
  obtain b2 es2 where a2: "addUniqueEdge (snd (addUniqueEdge (edges (rgraph rs)) fid rid ''CONTAINS'' r))
                              rid did ''REFERENCES'' r = (b2, es2)"
    by (cases "addUniqueEdge (snd (addUniqueEdge (edges (rgraph rs)) fid rid ''CONTAINS'' r))
                              rid did ''REFERENCES'' r")
  show ?thesis
  proof (cases "has (nodes (rgraph rs)) rid")
    case True
    then show ?thesis
      unfolding linkReference_def Let_def
      by (cases b) (simp_all add: a1 h e f n sameResolver_def sameGraph_def)
  next
    case False
    have h2: "has (mapSet rid v (nodes (rgraph rs'))) k = has (mapSet rid v (nodes (rgraph rs))) k" for v k
      by (simp add: h)
    from False show ?thesis
      unfolding linkReference_def Let_def
      by (cases b2)
         (simp_all add: a2 h h2 e f n sameResolver_def sameGraph_def strip_mapSet del: has_mapSet)
  qed
qed

lemma resolveReference_same:
  "sameResolver rs rs' \<Longrightarrow>
   sameResolver (resolveReference H r defs ref rs) (resolveReference H r defs ref rs')"
  by (cases "defs (t_name ref @ '':'' @ t_type ref)")
     (simp_all add: resolveReference_def linkReference_same, simp add: sameResolver_def)

lemma resolveReferences_same:
  "sameGraph g g' \<Longrightarrow>
   sameGraph (rgraph (resolveReferences H r defs refs g)) (rgraph (resolveReferences H r defs refs g'))"
proof -
  have "sameResolver rs rs' \<Longrightarrow>
        sameResolver (fold (resolveReference H r defs) refs rs) (fold (resolveReference H r defs) refs rs')"
    for rs rs'
    by (induction refs arbitrary: rs rs') (simp_all add: resolveReference_same)
  then show "sameGraph g g' \<Longrightarrow> ?thesis"
    by (simp add: resolveReferences_def sameResolver_def)
qed

lemma strip_ids: "map n_nodeId (map snd (stripNodes m)) = map n_nodeId (map snd m)"
  by (induction m) (simp_all add: stripNodes_def stripNode_def)

lemma strip_length: "length (stripNodes m) = length m"
  by (simp add: stripNodes_def)

lemma sameGraph_view:
  assumes "sameGraph g g'"
  shows "graphView \<lparr>g_nodes = nodes g, g_edges = edges g\<rparr> =
         graphView \<lparr>g_nodes = nodes g', g_edges = edges g'\<rparr>"
proof -
  have n: "stripNodes (nodes g) = stripNodes (nodes g')" and e: "edges g = edges g'"
    using assms by (simp_all add: sameGraph_def)
  have "map n_nodeId (map snd (nodes g)) = map n_nodeId (map snd (nodes g'))"
    using strip_ids [of "nodes g"] strip_ids [of "nodes g'"] n by simp
  moreover have "length (nodes g) = length (nodes g')"
    using strip_length [of "nodes g"] strip_length [of "nodes g'"] n by simp
  ultimately show ?thesis
    using e by (simp add: graphView_def getNodes_def getEdges_def numberOfNodes_def numberOfEdges_def)
qed

lemma buildGraph_tables:
  assumes "fsOk fs" and "inert ms"
  shows "snd (buildGraph C H G (Some S) files info fs ms) = ms"
proof -
  obtain x y where xy: "extraction C H G info fs files ms = (x, y)"
    by (cases "extraction C H G info fs files ms")
  have "mtables y = ms"
    using extraction_same [OF assms, of C H G info files C] xy by (simp add: agree_def)
  then show ?thesis
    using xy by (cases x) (auto simp: buildGraph_def Let_def split: outcome.splits)
qed

lemma buildGraph_same:
  assumes "fsOk fs" and "inert ms" and "\<forall>g. S g = Resolved ()" and "\<forall>g. S' g = Resolved ()"
  shows "map_outcome graphView (fst (buildGraph C H G (Some S) files info fs ms)) =
         map_outcome graphView (fst (buildGraph C' H G (Some S') files info fs ms))"
proof -
  obtain x y where xy: "extraction C H G info fs files ms = (x, y)"
    by (cases "extraction C H G info fs files ms")
  obtain x' y' where xy': "extraction C' H G info fs files ms = (x', y')"
    by (cases "extraction C' H G info fs files ms")
  have s: "x' = x" "sameState y y'"
    using extraction_same [OF assms(1,2), of C H G info files C'] xy xy' by (simp_all add: agree_def)
  have g: "sameGraph (graph y) (graph y')" and d: "definitions y' = definitions y"
    and r: "references y' = references y"
    using s(2) by (simp_all add: sameState_def)
  have v: "graphView \<lparr>g_nodes = nodes (rgraph (resolveReferences H (repoId info) (definitions y) (references y) (graph y))),
                      g_edges = edges (rgraph (resolveReferences H (repoId info) (definitions y) (references y) (graph y)))\<rparr> =
           graphView \<lparr>g_nodes = nodes (rgraph (resolveReferences H (repoId info) (definitions y) (references y) (graph y'))),
                      g_edges = edges (rgraph (resolveReferences H (repoId info) (definitions y) (references y) (graph y')))\<rparr>"
    using resolveReferences_same [OF g] by (rule sameGraph_view)
  show ?thesis
    using xy xy' s(1) d r v assms(3,4)
    by (cases x) (simp_all add: buildGraph_def Let_def)
qed




section \<open>Runs under a digest without collisions on their ids\<close>

subsection \<open>Nothing is removed\<close>

lemma idsOf_alt: "idsOf g = {k. has (nodes g) k} \<union> ends (edges g)"
  by (auto simp: idsOf_def ends_def has_keys)

lemma within_refl [simp]: "within g g"
  by (simp add: within_def)

lemma within_trans: "within a b \<Longrightarrow> within b c \<Longrightarrow> within a c"
  by (auto simp: within_def intro: grows_trans)

lemma within_ids: "within g g' \<Longrightarrow> idsOf g \<subseteq> idsOf g'"
  by (auto simp: within_def idsOf_alt ends_def grows_def)

lemma within_addNode: "within g (g\<lparr>nodes := mapSet k v (nodes g)\<rparr>)"
  by (simp add: within_def)

lemma within_addEdge:
  "within \<lparr>nodes = ns, edges = es\<rparr> \<lparr>nodes = ns, edges = snd (addUniqueEdge es a b ty r)\<rparr>"
  using addUniqueEdge_set(2) [of es a b ty r] by (simp add: within_def)

lemma ensure_within: "within g (snd (ensureFolderNode C H g r p))"
proof -
  have "grows (nodes g) (nodes (snd (ensureFolderNode C H g r p)))"
    by (simp add: grows_def ensure_has)
  then show ?thesis
    using ensure_edges_mono [of g C H r p] by (simp add: within_def)
qed

lemma processTag_within: "within (graph st) (graph (processTag H r fp rel fid t st))"
  by (cases "t_kind t") (auto simp: processTag_def Let_def within_def grows_def)

lemma processTags_within: "within (graph st) (graph (fold (processTag H r fp rel fid) ts st))"
proof (induction ts arbitrary: st)
  case (Cons t ts)
  show ?case using processTag_within [of st H r fp rel fid t] Cons [of "processTag H r fp rel fid t st"]
    by (auto intro: within_trans)
qed simp

lemma after_parse_within:
  assumes "within g (graph st1)"
  shows "within g
           (graph (snd (case parseFile G (mtables st1) c fn rel of
                          (Resolved ts, ms) \<Rightarrow>
                            (o1, fold (processTag H r fp rel fid) ts (st1\<lparr>mtables := ms\<rparr>))
                        | (Rejected, ms) \<Rightarrow> (o2, st1\<lparr>mtables := ms\<rparr>)
                        | (Pending, ms) \<Rightarrow> (o3, st1\<lparr>mtables := ms\<rparr>))))"
proof -
  have "within g (graph (fold (processTag H r fp rel fid) ts (st1\<lparr>mtables := ms\<rparr>)))" for ts ms
    using processTags_within [of "st1\<lparr>mtables := ms\<rparr>" H r fp rel fid ts] assms
    by (auto intro: within_trans)
  then show ?thesis using assms
    by (auto split: prod.splits outcome.splits)
qed

lemma processFile_within: "within (graph st) (graph (snd (processFile C H G info p c parent st)))"
proof -
  have "set es \<subseteq> set (snd (addUniqueEdge es a b ty r))" for es a b ty r
    by (rule addUniqueEdge_set(2))
  then show ?thesis
    unfolding processFile_def Let_def
    by (intro after_parse_within) (simp add: within_def grows_def)
qed

lemma ensureDirNode_within: "within (graph st) (graph (ensureDirNode C H info p parent st))"
  by (auto simp: ensureDirNode_def Let_def within_def grows_def)

lemma processDirectory_within:
  "within (graph st) (graph (snd (processDirectory C H G info p n parent st)))"
  and processEntries_within:
  "within (graph st) (graph (snd (processEntries C H G info p es dirNodeId st)))"
proof (induction C H G info p n parent st and C H G info p es dirNodeId st
       rule: processDirectory_processEntries.induct)
  case (1 C H G info p es parentNodeId st)
  let ?d = "generateNodeId H (repoId info) (''folder:'' @ relString p)"
  let ?st1 = "ensureDirNode C H info p parentNodeId st"
  have "within (graph ?st1) (graph (snd (processEntries C H G info p es ?d ?st1)))"
    by (intro "1.IH") auto
  with ensureDirNode_within [of st C H info p parentNodeId]
  have "within (graph st) (graph (snd (processEntries C H G info p es ?d ?st1)))"
    by (rule within_trans)
  then show ?case
    by (auto simp: Let_def split: prod.splits outcome.splits)
next
  case (2 C H G info p sz c parentNodeId st)
  then show ?case using ensureDirNode_within by simp
next
  case (3 C H G info p parentNodeId st)
  then show ?case by simp
next
  case (4 C H G info p dirNodeId st)
  then show ?case by simp
next
  case (5 C H G info p entry child es dirNodeId st)
  show ?case
  proof (cases child)
    case FsBroken
    then show ?thesis by simp
  next
    case (FsFile sz c)
    show ?thesis
    proof (cases "isSourceFile entry")
      case False
      then show ?thesis using FsFile "5.IH"(2) by simp
    next
      case True
      obtain x y where xy: "processFile C H G info (p @ [entry]) c dirNodeId st = (x, y)"
        by (cases "processFile C H G info (p @ [entry]) c dirNodeId st")
      have s1: "within (graph st) (graph y)"
        using processFile_within [of st C H G info "p @ [entry]" c dirNodeId] xy by simp
      show ?thesis
      proof (cases x)
        case (Resolved u)
        have "within (graph y) (graph (snd (processEntries C H G info p es dirNodeId y)))"
          using FsFile True xy Resolved by (intro "5.IH"(1) [of sz c x y u]) auto
        with s1 show ?thesis using FsFile True xy Resolved
          by (auto intro: within_trans)
      qed (use s1 FsFile True xy in auto)
    qed
  next
    case (FsDir sub)
    show ?thesis
    proof (cases "entry \<noteq> [] \<and> hd entry = CHR ''.'' \<or> entry = ''node_modules''")
      case True
      then show ?thesis using FsDir "5.IH"(3) by simp
    next
      case False
      obtain x y where xy: "processDirectory C H G info (p @ [entry]) child dirNodeId st = (x, y)"
        by (cases "processDirectory C H G info (p @ [entry]) child dirNodeId st")
      have eq: "processEntries C H G info p ((entry, child) # es) dirNodeId st =
                  (case processDirectory C H G info (p @ [entry]) child dirNodeId st of
                     (Resolved u, s') \<Rightarrow> processEntries C H G info p es dirNodeId s'
                   | res \<Rightarrow> res)"
        using FsDir False by (auto simp del: processDirectory.simps)
      have s1: "within (graph st) (graph y)"
        using "5.IH"(4) [OF FsDir False] xy by simp
      show ?thesis
      proof (cases x)
        case (Resolved u)
        have "within (graph y) (graph (snd (processEntries C H G info p es dirNodeId y)))"
          using FsDir False xy Resolved by (intro "5.IH"(5) [of sub x y u]) auto
        with s1 show ?thesis unfolding eq xy using Resolved
          by (auto intro: within_trans)
      next
        case Rejected
        then show ?thesis unfolding eq xy using s1 by simp
      next
        case Pending
        then show ?thesis unfolding eq xy using s1 by simp
      qed
    qed
  qed
qed

lemma fileStep_within: "within (graph st) (graph (snd (fileStep C H G info fs p st)))"
proof -
  let ?r = "repoId info"
  let ?fid = "generateNodeId H ?r (''file:'' @ joinSegs p)"
  let ?e = "ensureFolderNode C H (graph st) ?r (butlast p)"
  let ?g2 = "\<lparr>nodes = mapSet ?fid
                 (fileNode ?fid ?r (baseNameOf (localPath info) p) (joinSegs p)
                    (createdNow C ?fid) (modifiedNow C ?fid)) (nodes (snd ?e)),
              edges = snd (addUniqueEdge (edges (snd ?e)) (fst ?e) ?fid ''CONTAINS'' ?r)\<rparr>"
  have "within (graph st) (snd ?e)"
    by (rule ensure_within)
  moreover have "within (snd ?e) ?g2"
    using addUniqueEdge_set(2) [of "edges (snd ?e)" "fst ?e" ?fid "''CONTAINS''" ?r]
    by (simp add: within_def grows_def)
  ultimately have s2: "within (graph st) (graph (st\<lparr>graph := ?g2\<rparr>))"
    by (auto intro: within_trans)
  let ?body = "\<lambda>c. (case parseFile G (mtables (st\<lparr>graph := ?g2\<rparr>)) c (baseNameOf (localPath info) p) (joinSegs p) of
                          (Resolved ts, ms) \<Rightarrow>
                            (Resolved (), fold (processTag H ?r (absString (localPath info) p) (joinSegs p) ?fid) ts
                                   (st\<lparr>graph := ?g2\<rparr>\<lparr>mtables := ms\<rparr>))
                        | (Rejected, ms) \<Rightarrow> (Rejected, st\<lparr>graph := ?g2\<rparr>\<lparr>mtables := ms\<rparr>)
                        | (Pending, ms) \<Rightarrow> (Pending, st\<lparr>graph := ?g2\<rparr>\<lparr>mtables := ms\<rparr>))"
  have body: "within (graph st) (graph (snd (?body c)))" for c
    using s2 by (rule after_parse_within)
  let ?stat = "(case lookup fs p of
                    None \<Rightarrow> None
                  | Some FsBroken \<Rightarrow> None
                  | Some (FsFile sz c) \<Rightarrow> if sz = 0 then None else Some c
                  | Some (FsDir es) \<Rightarrow> Some Unreadable)"
  consider (skip) "has (nodes (graph st)) ?fid \<or> ?stat = None"
    | (go) c where "\<not> has (nodes (graph st)) ?fid" "?stat = Some c"
    by (cases ?stat) auto
  then show ?thesis
  proof cases
    case skip
    then have "fileStep C H G info fs p st = (Resolved (), st)"
      unfolding fileStep_def Let_def by auto
    then show ?thesis by simp
  next
    case go
    then have "fileStep C H G info fs p st = ?body c"
      unfolding fileStep_def Let_def case_prod_beta by simp
    then show ?thesis using body [of c] by simp
  qed
qed

lemma processFiles_within: "within (graph st) (graph (snd (processFiles C H G info fs ps st)))"
proof (induction ps arbitrary: st)
  case Nil
  then show ?case by simp
next
  case (Cons p ps)
  obtain x y where xy: "fileStep C H G info fs p st = (x, y)"
    by (cases "fileStep C H G info fs p st")
  have s1: "within (graph st) (graph y)"
    using fileStep_within [of st C H G info fs p] xy by simp
  show ?case
  proof (cases x)
    case (Resolved u)
    with s1 Cons.IH [of y] show ?thesis using xy by (auto intro: within_trans)
  qed (use s1 xy in auto)
qed


subsection \<open>Renaming the ids\<close>

lemma renameEdge_sel [simp]:
  "e_sourceId (renameEdge f e) = f (e_sourceId e)" "e_targetId (renameEdge f e) = f (e_targetId e)"
  "e_type (renameEdge f e) = e_type e" "e_repoId (renameEdge f e) = e_repoId e"
  by (simp_all add: renameEdge_def)

lemma renameEdge_mkEdge [simp]: "renameEdge f (mkEdge a b ty r) = mkEdge (f a) (f b) ty r"
  by (simp add: renameEdge_def mkEdge_def)

lemma generateNodeId_comp: "generateNodeId (\<lambda>s. f (K s)) r x = f (generateNodeId K r x)"
  by (simp add: generateNodeId_def)

lemma has_Cons: "has (kv # m) k = (fst kv = k \<or> has m k)"
  by (cases kv) (auto simp: has_def)

lemma renameNodes_has:
  assumes "inj_on f S" and "k \<in> S"
  shows "{k. has ns k} \<subseteq> S \<Longrightarrow> has (renameNodes f ns) (f k) = has ns k"
proof (induction ns)
  case Nil
  then show ?case by (simp add: renameNodes_def has_def)
next
  case (Cons kv ns)
  have "fst kv \<in> S" using Cons.prems by (auto simp: has_Cons)
  then have "(f (fst kv) = f k) = (fst kv = k)"
    using assms by (simp add: inj_on_eq_iff)
  moreover have "{k. has ns k} \<subseteq> S"
    using Cons.prems by (auto simp: has_Cons)
  ultimately show ?case using Cons.IH
    by (simp add: renameNodes_def has_Cons)
qed

lemma renameNodes_mapSet:
  assumes "inj_on f S" and "k \<in> S"
  shows "{k. has ns k} \<subseteq> S \<Longrightarrow>
         renameNodes f (mapSet k v ns) = mapSet (f k) (renameNode f v) (renameNodes f ns)"
proof (induction ns)
  case Nil
  then show ?case by (simp add: renameNodes_def)
next
  case (Cons kv ns)
  have "fst kv \<in> S" using Cons.prems by (auto simp: has_Cons)
  then have "(f (fst kv) = f k) = (fst kv = k)"
    using assms by (simp add: inj_on_eq_iff)
  moreover have "{k. has ns k} \<subseteq> S"
    using Cons.prems by (auto simp: has_Cons)
  ultimately show ?case using Cons.IH
    by (cases kv) (auto simp: renameNodes_def)
qed

lemma sim_has:
  assumes "inj_on f S" and "idsOf g \<subseteq> S" and "k \<in> S" and "simGraph f g gH"
  shows "has (nodes gH) (f k) = has (nodes g) k"
proof -
  have "has (nodes gH) (f k) = has (stripNodes (nodes gH)) (f k)"
    by simp
  also have "\<dots> = has (renameNodes f (nodes g)) (f k)"
    using assms(4) by (simp add: simGraph_def)
  also have "\<dots> = has (nodes g) k"
    using assms(1-3) by (intro renameNodes_has [of f S]) (auto simp: idsOf_alt)
  finally show ?thesis .
qed

lemma sim_setNode:
  assumes "inj_on f S" and "idsOf g \<subseteq> S" and "k \<in> S" and "simGraph f g gH"
    and "stripNode vH = stripNode (renameNode f v)"
  shows "simGraph f (g\<lparr>nodes := mapSet k v (nodes g)\<rparr>) (gH\<lparr>nodes := mapSet (f k) vH (nodes gH)\<rparr>)"
proof -
  have "renameNodes f (mapSet k v (nodes g)) = mapSet (f k) (renameNode f v) (renameNodes f (nodes g))"
    using assms(1-3) by (intro renameNodes_mapSet [of f S]) (auto simp: idsOf_alt)
  then show ?thesis
    using assms(4,5) by (simp add: simGraph_def strip_mapSet)
qed

lemma ends_rename:
  assumes "inj_on f S" and "ends es \<subseteq> S" and "a \<in> S" and "b \<in> S" and "e \<in> set es"
  shows "(f (e_sourceId e) = f a) = (e_sourceId e = a)" "(f (e_targetId e) = f b) = (e_targetId e = b)"
        "(f (e_sourceId e) = f b) = (e_sourceId e = b)" "(f (e_targetId e) = f a) = (e_targetId e = a)"
proof -
  have "e_sourceId e \<in> S" "e_targetId e \<in> S"
    using assms(2,5) by (auto simp: ends_def)
  then show "(f (e_sourceId e) = f a) = (e_sourceId e = a)" "(f (e_targetId e) = f b) = (e_targetId e = b)"
        "(f (e_sourceId e) = f b) = (e_sourceId e = b)" "(f (e_targetId e) = f a) = (e_targetId e = a)"
    using assms(1,3,4) by (simp_all add: inj_on_eq_iff)
qed

lemma sim_edgeExists:
  assumes "inj_on f S" and "ends es \<subseteq> S" and "a \<in> S" and "b \<in> S"
  shows "edgeExists (map (renameEdge f) es) (f a) (f b) ty r = edgeExists es a b ty r"
  using ends_rename [OF assms]
  by (auto simp: edgeExists_def list_ex_iff)

lemma sim_addUnique:
  assumes "inj_on f S" and "ends es \<subseteq> S" and "a \<in> S" and "b \<in> S"
  shows "addUniqueEdge (map (renameEdge f) es) (f a) (f b) ty r =
         (fst (addUniqueEdge es a b ty r), map (renameEdge f) (snd (addUniqueEdge es a b ty r)))"
proof -
  have 1: "list_ex (\<lambda>e. e_sourceId e = f a \<and> e_targetId e = f b \<and> e_type e = ty \<and> e_repoId e = Some r)
             (map (renameEdge f) es) =
           list_ex (\<lambda>e. e_sourceId e = a \<and> e_targetId e = b \<and> e_type e = ty \<and> e_repoId e = Some r) es"
    using ends_rename [OF assms] by (auto simp: list_ex_iff)
  have 2: "list_ex (\<lambda>e. e_sourceId e = f b \<and> e_targetId e = f a \<and> e_type e = ty \<and> e_repoId e = Some r)
             (map (renameEdge f) es) =
           list_ex (\<lambda>e. e_sourceId e = b \<and> e_targetId e = a \<and> e_type e = ty \<and> e_repoId e = Some r) es"
    using ends_rename [OF assms] by (auto simp: list_ex_iff)
  show ?thesis
    unfolding addUniqueEdge_def Let_def 1 2 by auto
qed

lemma addUnique_ends:
  "a \<in> ends (snd (addUniqueEdge es a b ty r))" "b \<in> ends (snd (addUniqueEdge es a b ty r))"
  by (auto simp: addUniqueEdge_def Let_def ends_def list_ex_iff image_iff)

lemma guarded_ends:
  "a \<in> ends (if \<not> edgeExists es a b ty r then es @ [mkEdge a b ty r] else es)"
  "b \<in> ends (if \<not> edgeExists es a b ty r then es @ [mkEdge a b ty r] else es)"
  by (auto simp: edgeExists_def ends_def list_ex_iff image_iff)

lemma strip_rename_folderNode:
  "stripNode (folderNode C (f k) r p) = stripNode (renameNode f (folderNode C0 k r p))"
  by (simp add: stripNode_def renameNode_def folderNode_def)

lemma strip_rename_fileNode:
  "stripNode (fileNode (f k) r n rel a b) = stripNode (renameNode f (fileNode k r n rel a' b'))"
  by (simp add: stripNode_def renameNode_def fileNode_def)

lemma strip_rename_dirNode:
  "stripNode (dirNode C (f k) info p) = stripNode (renameNode f (dirNode C0 k info p))"
  by (simp add: stripNode_def renameNode_def dirNode_def Let_def)

lemma strip_rename_rootNode:
  "stripNode (rootNode C (f k) info) = stripNode (renameNode f (rootNode C0 k info))"
  by (simp add: stripNode_def renameNode_def rootNode_def)

lemma rename_defNode: "defNode (f k) r rel tag = renameNode f (defNode k r rel tag)"
  by (simp add: renameNode_def defNode_def)

lemma folderRef_comp: "folderRef (\<lambda>s. f (K s)) r p = f (folderRef K r p)"
  by (simp add: folderRef_def rootId_def folderId_def generateNodeId_def)

lemma folderId_comp: "folderId (\<lambda>s. f (K s)) r p = f (folderId K r p)"
  by (simp add: folderId_def generateNodeId_def)

lemma ensure_sim:
  assumes "inj_on f S"
  shows "idsOf (snd (ensureFolderNode C0 K g r p)) \<subseteq> S \<Longrightarrow> simGraph f g gH \<Longrightarrow>
         simGraph f (snd (ensureFolderNode C0 K g r p))
                    (snd (ensureFolderNode C (\<lambda>s. f (K s)) gH r p))"
proof (induction C0 K g r p arbitrary: gH rule: ensureFolderNode.induct)
  case (1 C0 K g r p)
  let ?k = "folderId K r p"
  let ?after = "snd (ensureFolderNode C0 K g r p)"
  have gS: "idsOf g \<subseteq> S"
    using within_ids [OF ensure_within [of g C0 K r p]] "1.prems"(1) by blast
  show ?case
  proof (cases "relString p = ''.''")
    case True
    then show ?thesis using "1.prems"(2) by (simp add: ensure_base)
  next
    case np: False
    have "has (nodes ?after) ?k"
      using np by (rule ensure_has_self)
    then have kS: "?k \<in> S"
      using "1.prems"(1) by (auto simp: idsOf_alt)
    have h: "has (nodes gH) (f ?k) = has (nodes g) ?k"
      using assms gS kS "1.prems"(2) by (rule sim_has)
    show ?thesis
    proof (cases "has (nodes g) ?k")
      case True
      then show ?thesis using h "1.prems"(2) by (simp add: ensure_base folderId_comp)
    next
      case False
      let ?g1 = "g\<lparr>nodes := mapSet ?k (folderNode C0 ?k r p) (nodes g)\<rparr>"
      let ?g1H = "gH\<lparr>nodes := mapSet (f ?k) (folderNode C (f ?k) r p) (nodes gH)\<rparr>"
      let ?g2 = "snd (ensureFolderNode C0 K ?g1 r (butlast p))"
      let ?g2H = "snd (ensureFolderNode C (\<lambda>s. f (K s)) ?g1H r (butlast p))"
      let ?par = "folderRef K r (butlast p)"
      have after: "?after = ?g2\<lparr>edges := snd (addUniqueEdge (edges ?g2) ?par ?k ''CONTAINS'' r)\<rparr>"
        using np False by (simp add: ensure_step Let_def)
      have afterH: "snd (ensureFolderNode C (\<lambda>s. f (K s)) gH r p) =
                    ?g2H\<lparr>edges := snd (addUniqueEdge (edges ?g2H) (f ?par) (f ?k) ''CONTAINS'' r)\<rparr>"
        using np False h by (simp add: ensure_step Let_def folderId_comp folderRef_comp)
      have "within ?g2 ?after"
        unfolding after using addUniqueEdge_set(2) [of "edges ?g2" ?par ?k "''CONTAINS''" r]
        by (simp add: within_def)
      then have g2S: "idsOf ?g2 \<subseteq> S"
        using within_ids "1.prems"(1) by blast
      have s1: "simGraph f ?g1 ?g1H"
        using assms gS kS "1.prems"(2) strip_rename_folderNode by (rule sim_setNode)
      have s2: "simGraph f ?g2 ?g2H"
        using np False g2S s1 by (intro "1.IH") (auto simp: folderId_def)
      have pS: "?par \<in> S"
        using addUnique_ends(1) [of ?par "edges ?g2" ?k "''CONTAINS''" r] "1.prems"(1)
        unfolding after by (auto simp: idsOf_alt)
      have eS: "ends (edges ?g2) \<subseteq> S"
        using g2S by (auto simp: idsOf_alt)
      have "addUniqueEdge (map (renameEdge f) (edges ?g2)) (f ?par) (f ?k) ''CONTAINS'' r =
            (fst (addUniqueEdge (edges ?g2) ?par ?k ''CONTAINS'' r),
             map (renameEdge f) (snd (addUniqueEdge (edges ?g2) ?par ?k ''CONTAINS'' r)))"
        using assms eS pS kS by (rule sim_addUnique)
      then show ?thesis
        unfolding after afterH using s2 by (simp add: simGraph_def)
    qed
  qed
qed

lemma processTag_sim:
  assumes "inj_on f S" and "idsOf (graph (processTag K r fp rel fid t st)) \<subseteq> S"
    and "simState f st stH"
  shows "simState f (processTag K r fp rel fid t st)
                    (processTag (\<lambda>s. f (K s)) r fp rel (f fid) t stH)"
proof (cases "t_kind t")
  case Ref
  then show ?thesis using assms(3) by (simp add: processTag_def simState_def)
next
  case Def
  let ?k = "generateNodeId K r (fp @ '':'' @ t_name t @ '':'' @ digits (t_startLine t))"
  let ?g = "graph st" and ?gH = "graph stH"
  let ?es = "if \<not> edgeExists (edges ?g) fid ?k ''CONTAINS'' r
             then edges ?g @ [mkEdge fid ?k ''CONTAINS'' r] else edges ?g"
  have after: "graph (processTag K r fp rel fid t st) =
               \<lparr>nodes = mapSet ?k (defNode ?k r rel t) (nodes ?g), edges = ?es\<rparr>"
    using Def by (simp add: processTag_def Let_def)
  have gS: "idsOf ?g \<subseteq> S"
    using within_ids [OF processTag_within [of st K r fp rel fid t]] assms(2) by blast
  have kS: "?k \<in> S"
    using assms(2) unfolding after by (auto simp: idsOf_alt)
  have fS: "fid \<in> S"
    using guarded_ends(1) [of fid "edges ?g" ?k "''CONTAINS''" r] assms(2)
    unfolding after by (auto simp: idsOf_alt)
  have sg: "simGraph f ?g ?gH"
    using assms(3) by (simp add: simState_def)
  have n: "stripNodes (mapSet (f ?k) (defNode (f ?k) r rel t) (nodes ?gH)) =
           stripNodes (renameNodes f (mapSet ?k (defNode ?k r rel t) (nodes ?g)))"
    using sim_setNode [OF assms(1) gS kS sg, of "defNode (f ?k) r rel t" "defNode ?k r rel t"]
    by (simp add: simGraph_def rename_defNode)
  have e: "edgeExists (edges ?gH) (f fid) (f ?k) ''CONTAINS'' r = edgeExists (edges ?g) fid ?k ''CONTAINS'' r"
    using sim_edgeExists [OF assms(1) _ fS kS, of "edges ?g"] gS sg
    by (simp add: simGraph_def idsOf_alt)
  show ?thesis
    using Def assms(3) n e sg
    by (simp add: processTag_def Let_def simState_def simGraph_def generateNodeId_comp)
qed

lemma processTags_sim:
  assumes "inj_on f S"
  shows "idsOf (graph (fold (processTag K r fp rel fid) ts st)) \<subseteq> S \<Longrightarrow> simState f st stH \<Longrightarrow>
         simState f (fold (processTag K r fp rel fid) ts st)
                    (fold (processTag (\<lambda>s. f (K s)) r fp rel (f fid)) ts stH)"
proof (induction ts arbitrary: st stH)
  case Nil
  then show ?case by simp
next
  case (Cons t ts)
  let ?st1 = "processTag K r fp rel fid t st"
  have "idsOf (graph ?st1) \<subseteq> S"
    using within_ids [OF processTags_within [of ?st1 K r fp rel fid ts]] Cons.prems(1) by auto
  then have "simState f ?st1 (processTag (\<lambda>s. f (K s)) r fp rel (f fid) t stH)"
    using assms Cons.prems(2) by (intro processTag_sim)
  then show ?case using Cons.prems(1) by (simp add: Cons.IH)
qed

lemma after_parse_sim:
  assumes "inj_on f S"
    and "idsOf (graph (snd (case parseFile G (mtables st1) c fn rel of
                  (Resolved ts, ms) \<Rightarrow> (o1, fold (processTag K r fp rel fid) ts (st1\<lparr>mtables := ms\<rparr>))
                | (Rejected, ms) \<Rightarrow> (o2, st1\<lparr>mtables := ms\<rparr>)
                | (Pending, ms) \<Rightarrow> (o3, st1\<lparr>mtables := ms\<rparr>)))) \<subseteq> S"
    and "simState f st1 st1H"
  shows "simRes f (case parseFile G (mtables st1) c fn rel of
                  (Resolved ts, ms) \<Rightarrow> (o1, fold (processTag K r fp rel fid) ts (st1\<lparr>mtables := ms\<rparr>))
                | (Rejected, ms) \<Rightarrow> (o2, st1\<lparr>mtables := ms\<rparr>)
                | (Pending, ms) \<Rightarrow> (o3, st1\<lparr>mtables := ms\<rparr>))
               (case parseFile G (mtables st1H) c fn rel of
                  (Resolved ts, ms) \<Rightarrow>
                    (o1, fold (processTag (\<lambda>s. f (K s)) r fp rel (f fid)) ts (st1H\<lparr>mtables := ms\<rparr>))
                | (Rejected, ms) \<Rightarrow> (o2, st1H\<lparr>mtables := ms\<rparr>)
                | (Pending, ms) \<Rightarrow> (o3, st1H\<lparr>mtables := ms\<rparr>))"
proof -
  have m: "mtables st1H = mtables st1"
    using assms(3) by (simp add: simState_def)
  obtain x ms where x: "parseFile G (mtables st1) c fn rel = (x, ms)"
    by (cases "parseFile G (mtables st1) c fn rel")
  have s: "simState f (st1\<lparr>mtables := ms\<rparr>) (st1H\<lparr>mtables := ms\<rparr>)"
    using assms(3) by (simp add: simState_def)
  show ?thesis
  proof (cases x)
    case (Resolved ts)
    have "idsOf (graph (fold (processTag K r fp rel fid) ts (st1\<lparr>mtables := ms\<rparr>))) \<subseteq> S"
      using assms(2) x Resolved by simp
    then have "simState f (fold (processTag K r fp rel fid) ts (st1\<lparr>mtables := ms\<rparr>))
                 (fold (processTag (\<lambda>s. f (K s)) r fp rel (f fid)) ts (st1H\<lparr>mtables := ms\<rparr>))"
      using assms(1) s by (intro processTags_sim)
    then show ?thesis using x m Resolved by (simp add: simRes_def)
  next
    case Rejected
    then show ?thesis using x m s by (simp add: simRes_def)
  next
    case Pending
    then show ?thesis using x m s by (simp add: simRes_def)
  qed
qed

lemma processFile_sim:
  assumes "inj_on f S" and "idsOf (graph (snd (processFile C0 K G info p c parent st))) \<subseteq> S"
    and "simState f st stH"
  shows "simRes f (processFile C0 K G info p c parent st)
                  (processFile C (\<lambda>s. f (K s)) G info p c (f parent) stH)"
proof -
  let ?r = "repoId info"
  let ?fid = "generateNodeId K ?r (''file:'' @ joinSegs p)"
  let ?fp = "absString (localPath info) p"
  let ?fn = "baseNameOf (localPath info) p"
  let ?g = "graph st" and ?gH = "graph stH"
  let ?g1 = "\<lparr>nodes = mapSet ?fid (fileNode ?fid ?r ?fn (joinSegs p) (statCtime C0 ?fp) (statMtime C0 ?fp)) (nodes ?g),
              edges = snd (addUniqueEdge (edges ?g) parent ?fid ''CONTAINS'' ?r)\<rparr>"
  let ?g1H = "\<lparr>nodes = mapSet (f ?fid) (fileNode (f ?fid) ?r ?fn (joinSegs p) (statCtime C ?fp) (statMtime C ?fp)) (nodes ?gH),
               edges = snd (addUniqueEdge (edges ?gH) (f parent) (f ?fid) ''CONTAINS'' ?r)\<rparr>"
  let ?st1 = "if \<not> has (nodes ?g) ?fid then st\<lparr>graph := ?g1\<rparr> else st"
  let ?st1H = "if \<not> has (nodes ?gH) (f ?fid) then stH\<lparr>graph := ?g1H\<rparr> else stH"
  let ?body = "\<lambda>s. case parseFile G (mtables s) c ?fn (joinSegs p) of
                  (Resolved ts, ms) \<Rightarrow> (Resolved (), fold (processTag K ?r ?fp (joinSegs p) ?fid) ts (s\<lparr>mtables := ms\<rparr>))
                | (Rejected, ms) \<Rightarrow> (Resolved (), s\<lparr>mtables := ms\<rparr>)
                | (Pending, ms) \<Rightarrow> (Pending, s\<lparr>mtables := ms\<rparr>)"
  let ?bodyH = "\<lambda>s. case parseFile G (mtables s) c ?fn (joinSegs p) of
                  (Resolved ts, ms) \<Rightarrow> (Resolved (), fold (processTag (\<lambda>s. f (K s)) ?r ?fp (joinSegs p) (f ?fid)) ts (s\<lparr>mtables := ms\<rparr>))
                | (Rejected, ms) \<Rightarrow> (Resolved (), s\<lparr>mtables := ms\<rparr>)
                | (Pending, ms) \<Rightarrow> (Pending, s\<lparr>mtables := ms\<rparr>)"
  have eq: "processFile C0 K G info p c parent st = ?body ?st1"
    by (simp only: processFile_def Let_def)
  have eqH: "processFile C (\<lambda>s. f (K s)) G info p c (f parent) stH = ?bodyH ?st1H"
    by (simp only: processFile_def Let_def generateNodeId_comp)
  have afterS: "idsOf (graph (snd (?body ?st1))) \<subseteq> S"
    using assms(2) unfolding eq .
  have "within (graph ?st1) (graph (snd (?body ?st1)))"
    by (rule after_parse_within) simp
  then have s1S: "idsOf (graph ?st1) \<subseteq> S"
    using within_ids afterS by blast
  have sg: "simGraph f ?g ?gH"
    using assms(3) by (simp add: simState_def)
  have "within ?g (graph ?st1)"
    using addUniqueEdge_set(2) [of "edges ?g" parent ?fid "''CONTAINS''" ?r]
    by (simp add: within_def grows_def)
  then have gS: "idsOf ?g \<subseteq> S"
    using within_ids s1S by blast
  have "has (nodes (graph ?st1)) ?fid"
    by simp
  then have fS: "?fid \<in> S"
    using s1S by (auto simp: idsOf_alt simp del: has_mapSet)
  have h: "has (nodes ?gH) (f ?fid) = has (nodes ?g) ?fid"
    using assms(1) gS fS sg by (rule sim_has)
  have s1: "simState f ?st1 ?st1H"
  proof (cases "has (nodes ?g) ?fid")
    case True
    then show ?thesis using h assms(3) by simp
  next
    case False
    have pS: "parent \<in> S"
      using addUnique_ends(1) [of parent "edges ?g" ?fid "''CONTAINS''" ?r] s1S False
      by (auto simp: idsOf_alt)
    have eS: "ends (edges ?g) \<subseteq> S"
      using gS by (auto simp: idsOf_alt)
    have e: "addUniqueEdge (map (renameEdge f) (edges ?g)) (f parent) (f ?fid) ''CONTAINS'' ?r =
          (fst (addUniqueEdge (edges ?g) parent ?fid ''CONTAINS'' ?r),
           map (renameEdge f) (snd (addUniqueEdge (edges ?g) parent ?fid ''CONTAINS'' ?r)))"
      using assms(1) eS pS fS by (rule sim_addUnique)
    have n: "simGraph f (?g\<lparr>nodes := mapSet ?fid (fileNode ?fid ?r ?fn (joinSegs p) (statCtime C0 ?fp) (statMtime C0 ?fp)) (nodes ?g)\<rparr>)
                        (?gH\<lparr>nodes := mapSet (f ?fid) (fileNode (f ?fid) ?r ?fn (joinSegs p) (statCtime C ?fp) (statMtime C ?fp)) (nodes ?gH)\<rparr>)"
      using assms(1) gS fS sg strip_rename_fileNode by (rule sim_setNode)
    show ?thesis
      using False h assms(3) n e sg by (simp add: simState_def simGraph_def)
  qed
  show ?thesis
    unfolding eq eqH using assms(1) afterS s1 by (rule after_parse_sim)
qed

lemma ensureDirNode_sim:
  assumes "inj_on f S" and "idsOf (graph (ensureDirNode C0 K info p parent st)) \<subseteq> S"
    and "simState f st stH"
  shows "simState f (ensureDirNode C0 K info p parent st)
                    (ensureDirNode C (\<lambda>s. f (K s)) info p (f parent) stH)"
proof -
  let ?r = "repoId info"
  let ?d = "generateNodeId K ?r (''folder:'' @ relString p)"
  let ?g = "graph st" and ?gH = "graph stH"
  have sg: "simGraph f ?g ?gH"
    using assms(3) by (simp add: simState_def)
  have gS: "idsOf ?g \<subseteq> S"
    using within_ids [OF ensureDirNode_within [of st C0 K info p parent]] assms(2) by blast
  show ?thesis
  proof (cases "has (nodes ?g) ?d")
    case True
    then have dS: "?d \<in> S" using gS by (auto simp: idsOf_alt)
    have "has (nodes ?gH) (f ?d) = has (nodes ?g) ?d"
      using assms(1) gS dS sg by (rule sim_has)
    then show ?thesis using True assms(3)
      by (simp add: ensureDirNode_def Let_def generateNodeId_comp)
  next
    case False
    let ?cond = "relString p \<noteq> ''.'' \<and> parent \<noteq> ?d \<and> \<not> edgeExists (edges ?g) parent ?d ''CONTAINS'' ?r"
    let ?es = "if ?cond then edges ?g @ [mkEdge parent ?d ''CONTAINS'' ?r] else edges ?g"
    have after: "graph (ensureDirNode C0 K info p parent st) =
                 \<lparr>nodes = mapSet ?d (dirNode C0 ?d info p) (nodes ?g), edges = ?es\<rparr>"
      using False by (simp add: ensureDirNode_def Let_def)
    have dS: "?d \<in> S"
      using assms(2) unfolding after by (auto simp: idsOf_alt)
    have h: "has (nodes ?gH) (f ?d) = has (nodes ?g) ?d"
      using assms(1) gS dS sg by (rule sim_has)
    have eS: "ends (edges ?g) \<subseteq> S"
      using gS by (auto simp: idsOf_alt)
    have n: "simGraph f (?g\<lparr>nodes := mapSet ?d (dirNode C0 ?d info p) (nodes ?g)\<rparr>)
                        (?gH\<lparr>nodes := mapSet (f ?d) (dirNode C (f ?d) info p) (nodes ?gH)\<rparr>)"
      using assms(1) gS dS sg strip_rename_dirNode by (rule sim_setNode)
    have c: "(relString p \<noteq> ''.'' \<and> f parent \<noteq> f ?d \<and>
              \<not> edgeExists (edges ?gH) (f parent) (f ?d) ''CONTAINS'' ?r) = ?cond"
    proof (cases "relString p \<noteq> ''.'' \<and> parent \<noteq> ?d")
      case False
      then show ?thesis by auto
    next
      case True
      have "parent \<in> ends ?es"
        using guarded_ends(1) [of parent "edges ?g" ?d "''CONTAINS''" ?r] True by simp
      then have pS: "parent \<in> S"
        using assms(2) unfolding after by (auto simp: idsOf_alt)
      have "f parent \<noteq> f ?d"
        using True pS dS assms(1) by (simp add: inj_on_eq_iff)
      moreover have "edgeExists (edges ?gH) (f parent) (f ?d) ''CONTAINS'' ?r =
                     edgeExists (edges ?g) parent ?d ''CONTAINS'' ?r"
        using sim_edgeExists [OF assms(1) eS pS dS] sg by (simp add: simGraph_def)
      ultimately show ?thesis using True by simp
    qed
    have afterH: "graph (ensureDirNode C (\<lambda>s. f (K s)) info p (f parent) stH) =
                 \<lparr>nodes = mapSet (f ?d) (dirNode C (f ?d) info p) (nodes ?gH),
                  edges = (if ?cond then edges ?gH @ [mkEdge (f parent) (f ?d) ''CONTAINS'' ?r] else edges ?gH)\<rparr>"
      using False h c by (simp add: ensureDirNode_def Let_def generateNodeId_comp)
    have "simGraph f (graph (ensureDirNode C0 K info p parent st))
                     (graph (ensureDirNode C (\<lambda>s. f (K s)) info p (f parent) stH))"
      unfolding after afterH using n sg by (simp add: simGraph_def)
    moreover have "definitions (ensureDirNode C (\<lambda>s. f (K s)) info p (f parent) stH) = definitions (ensureDirNode C0 K info p parent st)"
      "references (ensureDirNode C (\<lambda>s. f (K s)) info p (f parent) stH) = references (ensureDirNode C0 K info p parent st)"
      "mtables (ensureDirNode C (\<lambda>s. f (K s)) info p (f parent) stH) = mtables (ensureDirNode C0 K info p parent st)"
      using assms(3) by (simp_all add: ensureDirNode_def Let_def simState_def)
    ultimately show ?thesis by (simp add: simState_def)
  qed
qed


lemma simResD: "simRes f a b \<Longrightarrow> fst b = fst a \<and> simState f (snd a) (snd b)"
  by (simp add: simRes_def)

lemma processDirectory_sim:
  "inj_on f S \<Longrightarrow> idsOf (graph (snd (processDirectory C0 K G info p n parent st))) \<subseteq> S \<Longrightarrow>
   simState f st stH \<Longrightarrow>
   simRes f (processDirectory C0 K G info p n parent st)
            (processDirectory C (\<lambda>s. f (K s)) G info p n (f parent) stH)"
  and processEntries_sim:
  "inj_on f S \<Longrightarrow> idsOf (graph (snd (processEntries C0 K G info p es dirNodeId st))) \<subseteq> S \<Longrightarrow>
   simState f st stH \<Longrightarrow>
   simRes f (processEntries C0 K G info p es dirNodeId st)
            (processEntries C (\<lambda>s. f (K s)) G info p es (f dirNodeId) stH)"
proof (induction C0 K G info p n parent st and C0 K G info p es dirNodeId st
       arbitrary: stH and stH
       rule: processDirectory_processEntries.induct)
  case (1 C0 K G info p es parentNodeId st)
  let ?d = "generateNodeId K (repoId info) (''folder:'' @ relString p)"
  let ?st1 = "ensureDirNode C0 K info p parentNodeId st"
  let ?st1H = "ensureDirNode C (\<lambda>s. f (K s)) info p (f parentNodeId) stH"
  have eq: "processDirectory C0 K G info p (FsDir es) parentNodeId st =
            (case processEntries C0 K G info p es ?d ?st1 of
               (Rejected, st') \<Rightarrow> (Resolved (), st') | res \<Rightarrow> res)"
    by (simp only: processDirectory.simps Let_def)
  have eqH: "processDirectory C (\<lambda>s. f (K s)) G info p (FsDir es) (f parentNodeId) stH =
            (case processEntries C (\<lambda>s. f (K s)) G info p es (f ?d) ?st1H of
               (Rejected, st') \<Rightarrow> (Resolved (), st') | res \<Rightarrow> res)"
    by (simp only: processDirectory.simps Let_def generateNodeId_comp)
  have aS: "idsOf (graph (snd (processEntries C0 K G info p es ?d ?st1))) \<subseteq> S"
    using "1.prems"(2) unfolding eq by (auto split: prod.splits outcome.splits)
  then have "idsOf (graph ?st1) \<subseteq> S"
    using within_ids [OF processEntries_within [of ?st1 C0 K G info p es ?d]] by blast
  then have s1: "simState f ?st1 ?st1H"
    using "1.prems"(1,3) by (intro ensureDirNode_sim)
  have "simRes f (processEntries C0 K G info p es ?d ?st1)
                 (processEntries C (\<lambda>s. f (K s)) G info p es (f ?d) ?st1H)"
    using "1.prems"(1) aS s1 by (intro "1.IH") auto
  then show ?case
    unfolding eq eqH by (auto simp: simRes_def split: prod.splits outcome.splits)
next
  case (2 C0 K G info p sz c parentNodeId st)
  then show ?case using ensureDirNode_sim [of f S C0 K info p parentNodeId st stH C]
    by (simp add: simRes_def)
next
  case (3 C0 K G info p parentNodeId st)
  then show ?case by (simp add: simRes_def)
next
  case (4 C0 K G info p dirNodeId st)
  then show ?case by (simp add: simRes_def)
next
  case (5 C0 K G info p entry child es dirNodeId st)
  note pre = "5.prems"
  let ?H = "\<lambda>s. f (K s)"
  show ?case
  proof (cases child)
    case FsBroken
    then show ?thesis using pre by (simp add: simRes_def)
  next
    case (FsFile sz c)
    show ?thesis
    proof (cases "isSourceFile entry")
      case False
      then show ?thesis using FsFile pre "5.IH"(2) by simp
    next
      case True
      obtain x y where xy: "processFile C0 K G info (p @ [entry]) c dirNodeId st = (x, y)"
        by (cases "processFile C0 K G info (p @ [entry]) c dirNodeId st")
      obtain x' y' where xy': "processFile C ?H G info (p @ [entry]) c (f dirNodeId) stH = (x', y')"
        by (cases "processFile C ?H G info (p @ [entry]) c (f dirNodeId) stH")
      have eq: "processEntries C0 K G info p ((entry, child) # es) dirNodeId st =
                  (case x of Resolved u \<Rightarrow> processEntries C0 K G info p es dirNodeId y | _ \<Rightarrow> (x, y))"
        using FsFile True xy by (simp split: outcome.splits)
      have eqH: "processEntries C ?H G info p ((entry, child) # es) (f dirNodeId) stH =
                  (case x' of Resolved u \<Rightarrow> processEntries C ?H G info p es (f dirNodeId) y' | _ \<Rightarrow> (x', y'))"
        using FsFile True xy' by (simp split: outcome.splits)
      have "within (graph y) (graph (snd (processEntries C0 K G info p ((entry, child) # es) dirNodeId st)))"
        unfolding eq using processEntries_within [of y C0 K G info p es dirNodeId]
        by (cases x) simp_all
      then have yS: "idsOf (graph y) \<subseteq> S"
        using within_ids pre(2) by blast
      have "simRes f (processFile C0 K G info (p @ [entry]) c dirNodeId st)
                     (processFile C ?H G info (p @ [entry]) c (f dirNodeId) stH)"
        using pre(1,3) yS xy by (intro processFile_sim) simp_all
      then have s1: "x' = x" "simState f y y'"
        using xy xy' by (simp_all add: simRes_def)
      show ?thesis
      proof (cases x)
        case (Resolved u)
        have "idsOf (graph (snd (processEntries C0 K G info p es dirNodeId y))) \<subseteq> S"
          using pre(2) unfolding eq using Resolved by simp
        then have "simRes f (processEntries C0 K G info p es dirNodeId y)
                            (processEntries C ?H G info p es (f dirNodeId) y')"
          using pre(1) s1 FsFile True xy Resolved
          by (intro "5.IH"(1) [of sz c x y u]) auto
        then show ?thesis unfolding eq eqH using Resolved s1 by simp
      next
        case Rejected
        then show ?thesis unfolding eq eqH using s1 by (simp add: simRes_def)
      next
        case Pending
        then show ?thesis unfolding eq eqH using s1 by (simp add: simRes_def)
      qed
    qed
  next
    case (FsDir sub)
    show ?thesis
    proof (cases "entry \<noteq> [] \<and> hd entry = CHR ''.'' \<or> entry = ''node_modules''")
      case True
      then show ?thesis using FsDir pre "5.IH"(3) by simp
    next
      case False
      obtain x y where xy: "processDirectory C0 K G info (p @ [entry]) child dirNodeId st = (x, y)"
        by (cases "processDirectory C0 K G info (p @ [entry]) child dirNodeId st")
      obtain x' y' where xy': "processDirectory C ?H G info (p @ [entry]) child (f dirNodeId) stH = (x', y')"
        by (cases "processDirectory C ?H G info (p @ [entry]) child (f dirNodeId) stH")
      have eq0: "processEntries C1 K1 G info p ((entry, child) # es) d s =
                  (case processDirectory C1 K1 G info (p @ [entry]) child d s of
                     (Resolved u, s') \<Rightarrow> processEntries C1 K1 G info p es d s'
                   | res \<Rightarrow> res)" for C1 K1 d s
        using FsDir False by (auto simp del: processDirectory.simps)
      have eq: "processEntries C0 K G info p ((entry, child) # es) dirNodeId st =
                  (case x of Resolved u \<Rightarrow> processEntries C0 K G info p es dirNodeId y | _ \<Rightarrow> (x, y))"
        unfolding eq0 xy by (simp split: outcome.splits)
      have eqH: "processEntries C ?H G info p ((entry, child) # es) (f dirNodeId) stH =
                  (case x' of Resolved u \<Rightarrow> processEntries C ?H G info p es (f dirNodeId) y' | _ \<Rightarrow> (x', y'))"
        unfolding eq0 xy' by (simp split: outcome.splits)
      have "within (graph y) (graph (snd (processEntries C0 K G info p ((entry, child) # es) dirNodeId st)))"
        unfolding eq using processEntries_within [of y C0 K G info p es dirNodeId]
        by (cases x) simp_all
      then have yS: "idsOf (graph y) \<subseteq> S"
        using within_ids pre(2) by blast
      have "simRes f (processDirectory C0 K G info (p @ [entry]) child dirNodeId st)
                     (processDirectory C ?H G info (p @ [entry]) child (f dirNodeId) stH)"
        using pre(1,3) yS xy by (intro "5.IH"(4) [OF FsDir False]) simp_all
      then have s1: "x' = x" "simState f y y'"
        using xy xy' by (simp_all add: simRes_def)
      show ?thesis
      proof (cases x)
        case (Resolved u)
        have "idsOf (graph (snd (processEntries C0 K G info p es dirNodeId y))) \<subseteq> S"
          using pre(2) unfolding eq using Resolved by simp
        then have "simRes f (processEntries C0 K G info p es dirNodeId y)
                            (processEntries C ?H G info p es (f dirNodeId) y')"
          using pre(1) s1 FsDir False xy Resolved
          by (intro "5.IH"(5) [of sub x y u]) auto
        then show ?thesis unfolding eq eqH using Resolved s1 by simp
      next
        case Rejected
        then show ?thesis unfolding eq eqH using s1 by (simp add: simRes_def)
      next
        case Pending
        then show ?thesis unfolding eq eqH using s1 by (simp add: simRes_def)
      qed
    qed
  qed
qed


lemma fileStep_sim:
  assumes "inj_on f S" and "idsOf (graph (snd (fileStep C0 K G info fs p st))) \<subseteq> S"
    and "simState f st stH"
  shows "simRes f (fileStep C0 K G info fs p st) (fileStep C (\<lambda>s. f (K s)) G info fs p stH)"
proof -
  let ?H = "\<lambda>s. f (K s)"
  let ?r = "repoId info"
  let ?fid = "generateNodeId K ?r (''file:'' @ joinSegs p)"
  let ?fp = "absString (localPath info) p"
  let ?fn = "baseNameOf (localPath info) p"
  let ?g = "graph st" and ?gH = "graph stH"
  let ?e = "ensureFolderNode C0 K ?g ?r (butlast p)"
  let ?eH = "ensureFolderNode C ?H ?gH ?r (butlast p)"
  let ?g2 = "\<lparr>nodes = mapSet ?fid (fileNode ?fid ?r ?fn (joinSegs p) (createdNow C0 ?fid) (modifiedNow C0 ?fid))
                        (nodes (snd ?e)),
              edges = snd (addUniqueEdge (edges (snd ?e)) (fst ?e) ?fid ''CONTAINS'' ?r)\<rparr>"
  let ?g2H = "\<lparr>nodes = mapSet (f ?fid) (fileNode (f ?fid) ?r ?fn (joinSegs p) (createdNow C (f ?fid)) (modifiedNow C (f ?fid)))
                        (nodes (snd ?eH)),
              edges = snd (addUniqueEdge (edges (snd ?eH)) (fst ?eH) (f ?fid) ''CONTAINS'' ?r)\<rparr>"
  let ?body = "\<lambda>c. (case parseFile G (mtables (st\<lparr>graph := ?g2\<rparr>)) c ?fn (joinSegs p) of
                          (Resolved ts, ms) \<Rightarrow>
                            (Resolved (), fold (processTag K ?r ?fp (joinSegs p) ?fid) ts
                                   (st\<lparr>graph := ?g2\<rparr>\<lparr>mtables := ms\<rparr>))
                        | (Rejected, ms) \<Rightarrow> (Rejected, st\<lparr>graph := ?g2\<rparr>\<lparr>mtables := ms\<rparr>)
                        | (Pending, ms) \<Rightarrow> (Pending, st\<lparr>graph := ?g2\<rparr>\<lparr>mtables := ms\<rparr>))"
  let ?bodyH = "\<lambda>c. (case parseFile G (mtables (stH\<lparr>graph := ?g2H\<rparr>)) c ?fn (joinSegs p) of
                          (Resolved ts, ms) \<Rightarrow>
                            (Resolved (), fold (processTag ?H ?r ?fp (joinSegs p) (f ?fid)) ts
                                   (stH\<lparr>graph := ?g2H\<rparr>\<lparr>mtables := ms\<rparr>))
                        | (Rejected, ms) \<Rightarrow> (Rejected, stH\<lparr>graph := ?g2H\<rparr>\<lparr>mtables := ms\<rparr>)
                        | (Pending, ms) \<Rightarrow> (Pending, stH\<lparr>graph := ?g2H\<rparr>\<lparr>mtables := ms\<rparr>))"
  let ?stat = "(case lookup fs p of
                    None \<Rightarrow> None
                  | Some FsBroken \<Rightarrow> None
                  | Some (FsFile sz c) \<Rightarrow> if sz = 0 then None else Some c
                  | Some (FsDir es) \<Rightarrow> Some Unreadable)"
  have sg: "simGraph f ?g ?gH"
    using assms(3) by (simp add: simState_def)
  have gS: "idsOf ?g \<subseteq> S"
    using within_ids [OF fileStep_within [of st C0 K G info fs p]] assms(2) by blast
  have skipH: "?stat = None \<Longrightarrow> fileStep C ?H G info fs p stH = (Resolved (), stH)"
    unfolding fileStep_def Let_def by auto
  consider (present) "has (nodes ?g) ?fid"
    | (nostat) "\<not> has (nodes ?g) ?fid" "?stat = None"
    | (go) c where "\<not> has (nodes ?g) ?fid" "?stat = Some c"
    by (cases ?stat) auto
  then show ?thesis
  proof cases
    case present
    then have "?fid \<in> S" using gS by (auto simp: idsOf_alt)
    then have "has (nodes ?gH) (f ?fid)"
      using sim_has [OF assms(1) gS _ sg, of ?fid] present by simp
    then have "fileStep C ?H G info fs p stH = (Resolved (), stH)"
      unfolding fileStep_def Let_def by (simp add: generateNodeId_comp)
    moreover have "fileStep C0 K G info fs p st = (Resolved (), st)"
      using present unfolding fileStep_def Let_def by simp
    ultimately show ?thesis using assms(3) by (simp add: simRes_def)
  next
    case nostat
    then have "fileStep C0 K G info fs p st = (Resolved (), st)"
      unfolding fileStep_def Let_def by auto
    then show ?thesis using skipH [OF nostat(2)] assms(3) by (simp add: simRes_def)
  next
    case go
    have eq: "fileStep C0 K G info fs p st = ?body c"
      using go unfolding fileStep_def Let_def case_prod_beta by simp
    have afterS: "idsOf (graph (snd (?body c))) \<subseteq> S"
      using assms(2) unfolding eq .
    have "within (graph (st\<lparr>graph := ?g2\<rparr>)) (graph (snd (?body c)))"
      by (rule after_parse_within) simp
    then have g2S: "idsOf ?g2 \<subseteq> S"
      using within_ids afterS by fastforce
    have "within (snd ?e) ?g2"
      using addUniqueEdge_set(2) [of "edges (snd ?e)" "fst ?e" ?fid "''CONTAINS''" ?r]
      by (simp add: within_def grows_def)
    then have eS: "idsOf (snd ?e) \<subseteq> S"
      using within_ids g2S by blast
    have "has (nodes ?g2) ?fid"
      by simp
    then have fS: "?fid \<in> S"
      using g2S by (auto simp: idsOf_alt simp del: has_mapSet)
    have pS: "fst ?e \<in> S"
      using addUnique_ends(1) [of "fst ?e" "edges (snd ?e)" ?fid "''CONTAINS''" ?r] g2S
      by (auto simp: idsOf_alt)
    have h: "\<not> has (nodes ?gH) (f ?fid)"
      using sim_has [OF assms(1) gS fS sg] go(1) by simp
    have "fileStep C ?H G info fs p stH =
            (if has (nodes ?gH) (f ?fid) then (Resolved (), stH)
             else (case ?stat of None \<Rightarrow> (Resolved (), stH) | Some c \<Rightarrow> ?bodyH c))"
      by (simp only: fileStep_def Let_def case_prod_beta generateNodeId_comp)
    then have eqH: "fileStep C ?H G info fs p stH = ?bodyH c"
      by (simp only: h if_False go(2) option.case)
    have se: "simGraph f (snd ?e) (snd ?eH)"
      using assms(1) eS sg by (rule ensure_sim)
    have fe: "fst ?eH = f (fst ?e)"
      by (simp add: ensure_fst folderRef_comp)
    have n: "simGraph f ((snd ?e)\<lparr>nodes := mapSet ?fid (fileNode ?fid ?r ?fn (joinSegs p) (createdNow C0 ?fid) (modifiedNow C0 ?fid)) (nodes (snd ?e))\<rparr>)
                        ((snd ?eH)\<lparr>nodes := mapSet (f ?fid) (fileNode (f ?fid) ?r ?fn (joinSegs p) (createdNow C (f ?fid)) (modifiedNow C (f ?fid))) (nodes (snd ?eH))\<rparr>)"
      using assms(1) eS fS se strip_rename_fileNode by (rule sim_setNode)
    have "ends (edges (snd ?e)) \<subseteq> S"
      using eS by (auto simp: idsOf_alt)
    then have e: "addUniqueEdge (map (renameEdge f) (edges (snd ?e))) (f (fst ?e)) (f ?fid) ''CONTAINS'' ?r =
          (fst (addUniqueEdge (edges (snd ?e)) (fst ?e) ?fid ''CONTAINS'' ?r),
           map (renameEdge f) (snd (addUniqueEdge (edges (snd ?e)) (fst ?e) ?fid ''CONTAINS'' ?r)))"
      using assms(1) pS fS by (intro sim_addUnique)
    have s2: "simState f (st\<lparr>graph := ?g2\<rparr>) (stH\<lparr>graph := ?g2H\<rparr>)"
      using assms(3) n e se unfolding fe by (simp add: simState_def simGraph_def)
    show ?thesis
      unfolding eq eqH using assms(1) afterS s2 by (rule after_parse_sim)
  qed
qed

lemma processFiles_sim:
  assumes "inj_on f S"
  shows "idsOf (graph (snd (processFiles C0 K G info fs ps st))) \<subseteq> S \<Longrightarrow> simState f st stH \<Longrightarrow>
         simRes f (processFiles C0 K G info fs ps st) (processFiles C (\<lambda>s. f (K s)) G info fs ps stH)"
proof (induction ps arbitrary: st stH)
  case Nil
  then show ?case by (simp add: simRes_def)
next
  case (Cons p ps)
  let ?H = "\<lambda>s. f (K s)"
  obtain x y where xy: "fileStep C0 K G info fs p st = (x, y)"
    by (cases "fileStep C0 K G info fs p st")
  obtain x' y' where xy': "fileStep C ?H G info fs p stH = (x', y')"
    by (cases "fileStep C ?H G info fs p stH")
  have eq: "processFiles C0 K G info fs (p # ps) st =
              (case x of Resolved u \<Rightarrow> processFiles C0 K G info fs ps y | _ \<Rightarrow> (x, y))"
    using xy by (simp split: outcome.splits)
  have eqH: "processFiles C ?H G info fs (p # ps) stH =
              (case x' of Resolved u \<Rightarrow> processFiles C ?H G info fs ps y' | _ \<Rightarrow> (x', y'))"
    using xy' by (simp split: outcome.splits)
  have "within (graph y) (graph (snd (processFiles C0 K G info fs (p # ps) st)))"
    unfolding eq using processFiles_within [of y C0 K G info fs ps] by (cases x) simp_all
  then have yS: "idsOf (graph y) \<subseteq> S"
    using within_ids Cons.prems(1) by blast
  have "simRes f (fileStep C0 K G info fs p st) (fileStep C ?H G info fs p stH)"
    using assms Cons.prems(2) yS xy by (intro fileStep_sim) simp_all
  then have s1: "x' = x" "simState f y y'"
    using xy xy' by (simp_all add: simRes_def)
  show ?case
  proof (cases x)
    case (Resolved u)
    have "idsOf (graph (snd (processFiles C0 K G info fs ps y))) \<subseteq> S"
      using Cons.prems(1) unfolding eq using Resolved by simp
    then have "simRes f (processFiles C0 K G info fs ps y) (processFiles C ?H G info fs ps y')"
      using s1 by (intro Cons.IH)
    then show ?thesis unfolding eq eqH using Resolved s1 by simp
  next
    case Rejected
    then show ?thesis unfolding eq eqH using s1 by (simp add: simRes_def)
  next
    case Pending
    then show ?thesis unfolding eq eqH using s1 by (simp add: simRes_def)
  qed
qed

lemma initial_sim: "simState f (initial_state C0 K info ms) (initial_state C (\<lambda>s. f (K s)) info ms)"
  using strip_rename_rootNode [of C f "generateNodeId K (repoId info) ''repo:root''" info C0]
  by (simp add: initial_state_def Let_def simState_def simGraph_def renameNodes_def stripNodes_def
                generateNodeId_comp)

lemma extraction_within:
  "within (graph (initial_state C K info ms)) (graph (snd (extraction C K G info fs files ms)))"
proof -
  let ?root = "generateNodeId K (repoId info) ''repo:root''"
  let ?st0 = "initial_state C K info ms"
  obtain x y where xy: "processDirectory C K G info [] fs ?root ?st0 = (x, y)"
    by (cases "processDirectory C K G info [] fs ?root ?st0")
  have 1: "within (graph ?st0) (graph y)"
    using processDirectory_within [of ?st0 C K G info "[]" fs ?root] xy by simp
  have 2: "within (graph y) (graph (snd (processFiles C K G info fs files y)))"
    by (rule processFiles_within)
  show ?thesis
    using xy 1 2 by (cases x) (auto simp: extraction_def intro: within_trans)
qed

lemma extraction_sim:
  assumes "inj_on f S" and "idsOf (graph (snd (extraction C0 K G info fs files ms))) \<subseteq> S"
  shows "simRes f (extraction C0 K G info fs files ms) (extraction C (\<lambda>s. f (K s)) G info fs files ms)"
proof -
  let ?H = "\<lambda>s. f (K s)"
  let ?root = "generateNodeId K (repoId info) ''repo:root''"
  let ?st0 = "initial_state C0 K info ms"
  let ?st0H = "initial_state C ?H info ms"
  obtain x y where xy: "processDirectory C0 K G info [] fs ?root ?st0 = (x, y)"
    by (cases "processDirectory C0 K G info [] fs ?root ?st0")
  obtain x' y' where xy': "processDirectory C ?H G info [] fs (f ?root) ?st0H = (x', y')"
    by (cases "processDirectory C ?H G info [] fs (f ?root) ?st0H")
  have eq: "extraction C0 K G info fs files ms =
              (case x of Resolved u \<Rightarrow> processFiles C0 K G info fs files y | _ \<Rightarrow> (x, y))"
    using xy by (simp add: extraction_def split: outcome.splits)
  have eqH: "extraction C ?H G info fs files ms =
              (case x' of Resolved u \<Rightarrow> processFiles C ?H G info fs files y' | _ \<Rightarrow> (x', y'))"
    using xy' by (simp add: extraction_def generateNodeId_comp split: outcome.splits)
  have "within (graph y) (graph (snd (extraction C0 K G info fs files ms)))"
    unfolding eq using processFiles_within [of y C0 K G info fs files] by (cases x) simp_all
  then have yS: "idsOf (graph y) \<subseteq> S"
    using within_ids assms(2) by blast
  have "simRes f (processDirectory C0 K G info [] fs ?root ?st0)
                 (processDirectory C ?H G info [] fs (f ?root) ?st0H)"
    using assms(1) yS xy initial_sim by (intro processDirectory_sim) simp_all
  then have s1: "x' = x" "simState f y y'"
    using xy xy' by (simp_all add: simRes_def)
  show ?thesis
  proof (cases x)
    case (Resolved u)
    have "idsOf (graph (snd (processFiles C0 K G info fs files y))) \<subseteq> S"
      using assms(2) unfolding eq using Resolved by simp
    then have "simRes f (processFiles C0 K G info fs files y) (processFiles C ?H G info fs files y')"
      using assms(1) s1 by (intro processFiles_sim)
    then show ?thesis unfolding eq eqH using Resolved s1 by simp
  next
    case Rejected
    then show ?thesis unfolding eq eqH using s1 by (simp add: simRes_def)
  next
    case Pending
    then show ?thesis unfolding eq eqH using s1 by (simp add: simRes_def)
  qed
qed

lemma containerId_comp: "containerId K r k \<Longrightarrow> containerId (\<lambda>s. f (K s)) r (f k)"
  by (auto simp: containerId_def rootId_def generateNodeId_def)

lemma containsBetween_map:
  "containsBetween (map (renameEdge f) es) a b =
   map (renameEdge f)
     (filter (\<lambda>e. e_type e = ''CONTAINS'' \<and>
                  ((f (e_sourceId e) = a \<and> f (e_targetId e) = b) \<or>
                   (f (e_sourceId e) = b \<and> f (e_targetId e) = a))) es)"
  by (induction es) (simp_all add: containsBetween_def)

lemma containsBetween_rename:
  assumes "inj_on f S" and "ends es \<subseteq> S" and "\<And>a b. length (containsBetween es a b) \<le> 1"
  shows "length (containsBetween (map (renameEdge f) es) a b) \<le> 1"
proof -
  let ?P = "\<lambda>e. e_type e = ''CONTAINS'' \<and>
                 ((f (e_sourceId e) = a \<and> f (e_targetId e) = b) \<or>
                  (f (e_sourceId e) = b \<and> f (e_targetId e) = a))"
  have len: "length (containsBetween (map (renameEdge f) es) a b) = length (filter ?P es)"
    by (simp only: containsBetween_map length_map)
  have k: "(f x = f y) = (x = y)" if "x \<in> S" "y \<in> S" for x y
    using assms(1) that by (rule inj_on_eq_iff)
  show ?thesis
  proof (cases "\<exists>e0 \<in> set es. ?P e0")
    case False
    then have "filter ?P es = []"
      by (simp only: filter_empty_conv) blast
    then show ?thesis unfolding len by simp
  next
    case True
    then obtain e0 where e0: "e0 \<in> set es" "?P e0" by blast
    let ?a0 = "e_sourceId e0" and ?b0 = "e_targetId e0"
    have S0: "?a0 \<in> S" "?b0 \<in> S"
      using e0(1) assms(2) by (auto simp: ends_def)
    have pq: "?P e = (e_type e = ''CONTAINS'' \<and>
                 ((e_sourceId e = ?a0 \<and> e_targetId e = ?b0) \<or> (e_sourceId e = ?b0 \<and> e_targetId e = ?a0)))"
      if "e \<in> set es" for e
    proof -
      have Se: "e_sourceId e \<in> S" "e_targetId e \<in> S"
        using that assms(2) by (auto simp: ends_def)
      from e0(2) consider (A) "f ?a0 = a" "f ?b0 = b" | (B) "f ?a0 = b" "f ?b0 = a"
        by blast
      then show ?thesis
      proof cases
        case A
        have "(f (e_sourceId e) = a) = (e_sourceId e = ?a0)" "(f (e_targetId e) = b) = (e_targetId e = ?b0)"
             "(f (e_sourceId e) = b) = (e_sourceId e = ?b0)" "(f (e_targetId e) = a) = (e_targetId e = ?a0)"
          unfolding A [symmetric] using k Se S0 by blast+
        then show ?thesis by simp
      next
        case B
        have "(f (e_sourceId e) = a) = (e_sourceId e = ?b0)" "(f (e_targetId e) = b) = (e_targetId e = ?a0)"
             "(f (e_sourceId e) = b) = (e_sourceId e = ?a0)" "(f (e_targetId e) = a) = (e_targetId e = ?b0)"
          unfolding B [symmetric] using k Se S0 by blast+
        then show ?thesis by (simp only:) blast
      qed
    qed
    have "filter ?P es = containsBetween es ?a0 ?b0"
      unfolding containsBetween_def by (rule filter_cong [OF refl]) (rule pq)
    then show ?thesis unfolding len using assms(3) [of ?a0 ?b0] by simp
  qed
qed


lemma ginv_rename:
  assumes "inj_on f S" and "idsOf g \<subseteq> S" and "ginv K r (nodes g) (edges g)" and "simGraph f g gH"
  shows "ginv (\<lambda>s. f (K s)) r (nodes gH) (edges gH)"
proof -
  have e: "edges gH = map (renameEdge f) (edges g)"
    using assms(4) by (simp add: simGraph_def)
  have eS: "ends (edges g) \<subseteq> S"
    using assms(2) by (auto simp: idsOf_alt)
  have h: "has (nodes g) k \<Longrightarrow> has (nodes gH) (f k)" for k
    using sim_has [OF assms(1,2) _ assms(4), of k] assms(2) by (auto simp: idsOf_alt)
  have "has (nodes g) (rootId K r)"
    using assms(3) by (simp add: ginv_def)
  then have 1: "has (nodes gH) (rootId (\<lambda>s. f (K s)) r)"
    using h by (simp add: rootId_def generateNodeId_comp)
  have 2: "has (nodes gH) (e_sourceId e') \<and> e_repoId e' = Some r \<and>
           (e_type e' = ''CONTAINS'' \<longrightarrow> containerId (\<lambda>s. f (K s)) r (e_sourceId e'))"
    if "e' \<in> set (edges gH)" for e'
  proof -
    from that obtain e0 where e0: "e0 \<in> set (edges g)" "e' = renameEdge f e0"
      unfolding e by auto
    then have "has (nodes g) (e_sourceId e0)" "e_repoId e0 = Some r"
      "e_type e0 = ''CONTAINS'' \<longrightarrow> containerId K r (e_sourceId e0)"
      using assms(3) by (auto simp: ginv_def)
    then show ?thesis using h containerId_comp unfolding e0(2) by simp
  qed
  have "length (containsBetween (edges g) a b) \<le> 1" for a b
    using assms(3) by (simp add: ginv_def)
  then have 3: "length (containsBetween (edges gH) a b) \<le> 1" for a b
    unfolding e using assms(1) eS by (intro containsBetween_rename)
  show ?thesis
    unfolding ginv_def using 1 2 3 by blast
qed

text \<open>
  C4. When \<^verbatim>\<open>repoInfo.localPath\<close> is absolute and the digest has no collision among the
  strings that this run hashes into the ids of the extracted graph, the graph that
  \<^verbatim>\<open>buildGraph\<close> resolves with has, for every pair of ids \<open>a\<close> and \<open>b\<close>, at most one CONTAINS
  edge between them, counting both directions: neither a duplicate of \<open>a \<rightarrow> b\<close> nor the
  reverse \<open>b \<rightarrow> a\<close> beside it. This covers the edges pushed directly after \<^verbatim>\<open>edgeExists\<close>,
  which tests one direction only. The run under such a digest builds the graph of the run
  under the identity with its ids renamed by the digest, and that graph has the invariant.
\<close>

theorem contains_edges_unique:
  assumes "isAbsolute (localPath info)"
    and "inj_on H (runIds C G info fs files ms)"
    and "resolvedGraph (buildGraph C H G neo4jService files info fs ms) = Some g"
  shows "length (containsBetween (getEdges g) a b) \<le> 1"
proof -
  let ?K = "\<lambda>s::string. s"
  let ?stK = "snd (extraction C ?K G info fs files ms)"
  let ?st = "snd (extraction C H G info fs files ms)"
  let ?rs = "resolveReferences H (repoId info) (definitions ?st) (references ?st) (graph ?st)"
  have env: "env_ok ?K info"
    using assms(1) by (simp add: env_ok_def isAbsolute_def)
  have gK: "ginv ?K (repoId info) (nodes (graph ?stK)) (edges (graph ?stK))"
    using env by (rule extraction_ok)
  have S: "idsOf (graph ?stK) \<subseteq> runIds C G info fs files ms"
    by (simp add: runIds_def)
  have "simRes H (extraction C ?K G info fs files ms) (extraction C H G info fs files ms)"
    using extraction_sim [OF assms(2) S, of C] by simp
  then have "simGraph H (graph ?stK) (graph ?st)"
    by (simp add: simRes_def simState_def)
  then have "ginv H (repoId info) (nodes (graph ?st)) (edges (graph ?st))"
    using ginv_rename [OF assms(2) S gK] by simp
  then have "ginv H (repoId info) (nodes (rgraph ?rs)) (edges (rgraph ?rs))"
    by (rule resolveReferences_ok)
  moreover have "getEdges g = edges (rgraph ?rs)"
    using assms(3)
    by (auto simp: resolvedGraph_def buildGraph_def Let_def getEdges_def
             split: option.splits prod.splits outcome.splits)
  ultimately show ?thesis by (simp add: ginv_def)
qed

text \<open>
  Scenario 2 under a digest with collisions, which maps a string to its lower case: it has
  none among the five strings that the run hashes.
\<close>

lemma runIds_example:
  "(let g = graph (snd (extraction clock0 (\<lambda>s. s) {''console''} repo twoFiles [[''a.ts''], [''b.ts'']]
                          initial_module_state))
    in (map fst (nodes g), map e_sourceId (edges g), map e_targetId (edges g))) =
   ([''r:repo:root'', ''r:folder:.'', ''r:file:a.ts'', ''r:/repo/a.ts:helper:1'', ''r:file:b.ts''],
    [''r:folder:.'', ''r:file:a.ts'', ''r:folder:.''],
    [''r:file:a.ts'', ''r:/repo/a.ts:helper:1'', ''r:file:b.ts''])"
  by code_simp

theorem contains_edges_unique_witness:
  "isAbsolute (localPath repo) \<and>
   inj_on toLowerCase (runIds clock0 {''console''} repo twoFiles [[''a.ts''], [''b.ts'']] initial_module_state) \<and>
   toLowerCase ''A'' = toLowerCase ''a'' \<and>
   (\<exists>g. resolvedGraph (buildGraph clock0 toLowerCase {''console''} (Some storeOk) [[''a.ts''], [''b.ts'']]
                         repo twoFiles initial_module_state) = Some g \<and>
        length (containsBetween (getEdges g) ''r:folder:.'' ''r:file:a.ts'') \<le> 1)"
proof -
  let ?ids = "[''r:repo:root'', ''r:folder:.'', ''r:file:a.ts'', ''r:/repo/a.ts:helper:1'', ''r:file:b.ts'']"
  have a: "isAbsolute (localPath repo)"
    by (simp add: isAbsolute_def repo_def)
  have r: "runIds clock0 {''console''} repo twoFiles [[''a.ts''], [''b.ts'']] initial_module_state = set ?ids"
    using runIds_example unfolding runIds_def idsOf_def Let_def by auto
  have "list_all (\<lambda>s. toLowerCase s = s) ?ids"
    by code_simp
  then have "\<forall>s \<in> set ?ids. toLowerCase s = s"
    by (simp only: list_all_iff)
  then have "inj_on toLowerCase (set ?ids)"
    by (intro inj_onI) metis
  then have i: "inj_on toLowerCase (runIds clock0 {''console''} repo twoFiles [[''a.ts''], [''b.ts'']]
                                      initial_module_state)"
    by (simp only: r)
  have c: "toLowerCase ''A'' = toLowerCase ''a''"
    by code_simp
  have "resolvedGraph (buildGraph clock0 toLowerCase {''console''} (Some storeOk) [[''a.ts''], [''b.ts'']]
                         repo twoFiles initial_module_state) \<noteq> None"
    by code_simp
  then obtain g where g: "resolvedGraph (buildGraph clock0 toLowerCase {''console''} (Some storeOk)
                            [[''a.ts''], [''b.ts'']] repo twoFiles initial_module_state) = Some g"
    by blast
  from contains_edges_unique [OF a i g] a i c g show ?thesis by blast
qed

end
